theory Spec2Isabelle
  imports
    Main
    "HOL-Library.Monad_Syntax"
    "HOL-Library.Signed_Division"
    "HOL-Library.Multiset"
begin

section \<open>The generalized Petersen graph constructor of igraph\<close>

text \<open>
  This theory embeds \<^verbatim>\<open>igraph_generalized_petersen\<close>
  (\<^verbatim>\<open>src/constructors/generalized_petersen.c\<close>) and settles the properties that
  its specification states about it.

  The function computes with values of the C type \<^verbatim>\<open>igraph_integer_t\<close>, a signed
  machine integer whose declaration is not part of the file. Its largest value is taken
  as the parameter \<open>imax\<close> of the model (\<open>2 ^ 63 - 1\<close> in igraph's default build,
  \<open>2 ^ 31 - 1\<close> in a 32-bit build); its smallest value is \<open>- imax - 1\<close>. Signed
  overflow is undefined behaviour in C: every arithmetic operation of the source is an
  operation of the model that yields \<open>None\<close> when its mathematical result is not
  representable. A run of the model that is \<open>None\<close> is a run of the C function on which
  the language places no requirement at all.

  Whether an allocation succeeds is decided by the environment of the call. It is the
  second parameter \<open>mem\<close> of the model: the initialisation and the reservation of the
  edge vector and the graph factory return \<^verbatim>\<open>IGRAPH_ENOMEM\<close> when \<open>mem\<close> refuses what
  they ask for, and the function returns that code to its caller.
\<close>

subsection \<open>Machine integers\<close>

type_synonym igraph_integer_t = int

definition representable :: "int \<Rightarrow> int \<Rightarrow> bool" where
  "representable imax x \<longleftrightarrow> - imax - 1 \<le> x \<and> x \<le> imax"

text \<open>\<^verbatim>\<open>a + b\<close> and \<^verbatim>\<open>a * b\<close> on \<^verbatim>\<open>igraph_integer_t\<close>.\<close>

definition int_add :: "int \<Rightarrow> igraph_integer_t \<Rightarrow> igraph_integer_t \<Rightarrow> igraph_integer_t option" where
  "int_add imax a b = (if representable imax (a + b) then Some (a + b) else None)"

definition int_mul :: "int \<Rightarrow> igraph_integer_t \<Rightarrow> igraph_integer_t \<Rightarrow> igraph_integer_t option" where
  "int_mul imax a b = (if representable imax (a * b) then Some (a * b) else None)"

text \<open>
  \<^verbatim>\<open>a % b\<close>: the remainder of the division that truncates towards zero; undefined
  when the divisor is zero or the quotient is not representable.
\<close>

definition int_rem :: "int \<Rightarrow> igraph_integer_t \<Rightarrow> igraph_integer_t \<Rightarrow> igraph_integer_t option" where
  "int_rem imax a b =
     (if b = 0 \<or> \<not> representable imax (a sdiv b) then None else Some (a smod b))"

subsection \<open>Data\<close>

datatype igraph_error_t =
  IGRAPH_SUCCESS | IGRAPH_EINVAL | IGRAPH_ENOMEM | IGRAPH_EINVEVECTOR | IGRAPH_EINVVID

text \<open>
  \<^verbatim>\<open>igraph_vector_int_t\<close>: the elements stored and the number of elements the
  allocated buffer has room for.
\<close>

record igraph_vector_int_t =
  stor :: "igraph_integer_t list"
  capacity :: nat

text \<open>\<^verbatim>\<open>igraph_t\<close>: what the constructor determines of a graph.\<close>

record igraph_t =
  vcount :: igraph_integer_t
  elist :: "(igraph_integer_t \<times> igraph_integer_t) list"
  directed :: bool

text \<open>
  The state the function works on: the object behind the pointer \<^verbatim>\<open>graph\<close>
  (\<open>None\<close> while it is uninitialized), the local vector \<^verbatim>\<open>edges\<close> (\<open>None\<close>
  while it owns no buffer), and the number of buffer allocations and reallocations that
  have been requested for vectors so far.
\<close>

record state =
  graph :: "igraph_t option"
  edges :: "igraph_vector_int_t option"
  allocs :: nat

text \<open>
  The memory the call runs in: \<open>vector_alloc mem c\<close> tells whether a buffer of \<open>c\<close>
  integers can be obtained for a vector, and \<open>graph_alloc mem nv ne\<close> whether the factory
  can obtain the storage of a graph of \<open>nv\<close> vertices and \<open>ne\<close> edges.
\<close>

record allocator =
  vector_alloc :: "nat \<Rightarrow> bool"
  graph_alloc :: "igraph_integer_t \<Rightarrow> nat \<Rightarrow> bool"

text \<open>Memory without limit, and memory that has room for buffers of at most \<open>m\<close> integers.\<close>

definition unbounded_memory :: allocator where
  "unbounded_memory = \<lparr>vector_alloc = (\<lambda>c. True), graph_alloc = (\<lambda>nv ne. True)\<rparr>"


subsection \<open>The collaborators: integer vectors and the graph factory\<close>

text \<open>
  Modelled from the spec: the vector operations \<^verbatim>\<open>igraph_vector_int_init\<close>,
  \<^verbatim>\<open>igraph_vector_int_reserve\<close>, \<^verbatim>\<open>igraph_vector_int_push_back\<close> and
  \<^verbatim>\<open>igraph_vector_int_destroy\<close>, which the file calls and does not define. The spec
  requires of them ``an appendable, reservable ordered integer sequence'': the list is
  created empty, reserving sets the capacity, counted in integers, and appending adds one
  integer at the end. Creating the vector and reserving capacity fail with
  \<^verbatim>\<open>IGRAPH_ENOMEM\<close>, and leave the state as it is, when the memory refuses the buffer:
  the spec has the allocation failure come ``from the edge-list reservation or from the
  Graph Factory''. An append to a full buffer has to enlarge the buffer first, which
  is one more allocation; the new capacity is twice the number of elements (one element
  for an empty vector), igraph's policy; what matters below is that it takes place. The
  spec gives the append no failure, and the function ignores what
  \<^verbatim>\<open>igraph_vector_int_push_back\<close> returns: an append always succeeds here. The cleanup stack
  of \<^verbatim>\<open>IGRAPH_VECTOR_INT_INIT_FINALLY\<close> and \<^verbatim>\<open>IGRAPH_FINALLY_CLEAN\<close> is not a
  component of the state; what it does on an error return is written into the function.
  An operation on a vector that owns no buffer is outside the contract of the
  operation (\<open>None\<close>).
\<close>

definition igraph_vector_int_init :: "allocator \<Rightarrow> state \<Rightarrow> igraph_integer_t \<Rightarrow> (igraph_error_t + state) option" where
  "igraph_vector_int_init mem s sz =
     (if sz < 0 then None
      else if vector_alloc mem (nat sz)
      then Some (Inr (s\<lparr>edges := Some \<lparr>stor = replicate (nat sz) 0, capacity = nat sz\<rparr>,
                         allocs := allocs s + 1\<rparr>))
      else Some (Inl IGRAPH_ENOMEM))"

definition igraph_vector_int_reserve :: "allocator \<Rightarrow> state \<Rightarrow> igraph_integer_t \<Rightarrow> (igraph_error_t + state) option" where
  "igraph_vector_int_reserve mem s c =
     (case edges s of
        None \<Rightarrow> None
      | Some v \<Rightarrow>
          if c < 0 then None
          else if nat c \<le> capacity v then Some (Inr s)
          else if vector_alloc mem (nat c)
          then Some (Inr (s\<lparr>edges := Some (v\<lparr>capacity := nat c\<rparr>), allocs := allocs s + 1\<rparr>))
          else Some (Inl IGRAPH_ENOMEM))"

definition igraph_vector_int_push_back :: "state \<Rightarrow> igraph_integer_t \<Rightarrow> state option" where
  "igraph_vector_int_push_back s e =
     (case edges s of
        None \<Rightarrow> None
      | Some v \<Rightarrow>
          if length (stor v) < capacity v
          then Some (s\<lparr>edges := Some (v\<lparr>stor := stor v @ [e]\<rparr>)\<rparr>)
          else Some (s\<lparr>edges := Some \<lparr>stor = stor v @ [e],
                                       capacity = (if stor v = [] then 1 else 2 * length (stor v))\<rparr>,
                        allocs := allocs s + 1\<rparr>))"

definition igraph_vector_int_destroy :: "state \<Rightarrow> state option" where
  "igraph_vector_int_destroy s =
     (case edges s of None \<Rightarrow> None | Some v \<Rightarrow> Some (s\<lparr>edges := None\<rparr>))"

text \<open>The flat sequence of endpoints read as pairs.\<close>

fun pairs :: "'a list \<Rightarrow> ('a \<times> 'a) list" where
  "pairs (u # v # es) = (u, v) # pairs es"
| "pairs es = []"

text \<open>
  Modelled from the spec: the graph factory \<^verbatim>\<open>igraph_create\<close>, which the file calls
  and does not define. The spec's contract is
  \<open>build_undirected(vertex_count, edges) -> Graph\<close>, ``where edges is interpreted as
  pairs of vertex indices in \<open>[0, vertex_count)\<close>'', returning ``a graph value or an
  allocation/construction error''. A sequence of odd length and an endpoint outside
  \<open>[0, vertex_count)\<close> are the construction errors; the allocation error is
  \<^verbatim>\<open>IGRAPH_ENOMEM\<close>, when the memory refuses the storage of the graph.
\<close>

definition igraph_create :: "allocator \<Rightarrow> igraph_integer_t list \<Rightarrow> igraph_integer_t \<Rightarrow> bool \<Rightarrow> igraph_error_t + igraph_t" where
  "igraph_create mem es nv dir =
     (if odd (length es) then Inl IGRAPH_EINVEVECTOR
      else if list_ex (\<lambda>x. x < 0 \<or> nv \<le> x) es then Inl IGRAPH_EINVVID
      else if graph_alloc mem nv (length es div 2)
      then Inr \<lparr>vcount = nv, elist = pairs es, directed = dir\<rparr>
      else Inl IGRAPH_ENOMEM)"

subsection \<open>The function\<close>

text \<open>One pass of the loop body, lines 70 to 75: six integers are appended.\<close>

definition petersen_body :: "int \<Rightarrow> igraph_integer_t \<Rightarrow> igraph_integer_t \<Rightarrow> igraph_integer_t \<Rightarrow> state \<Rightarrow> state option" where
  "petersen_body imax n k i s = do {
     s1 \<leftarrow> igraph_vector_int_push_back s i;
     a \<leftarrow> int_add imax i 1;
     b \<leftarrow> int_rem imax a n;
     s2 \<leftarrow> igraph_vector_int_push_back s1 b;
     s3 \<leftarrow> igraph_vector_int_push_back s2 i;
     c \<leftarrow> int_add imax i n;
     s4 \<leftarrow> igraph_vector_int_push_back s3 c;
     d \<leftarrow> int_add imax i n;
     s5 \<leftarrow> igraph_vector_int_push_back s4 d;
     e \<leftarrow> int_add imax i k;
     f \<leftarrow> int_rem imax e n;
     g \<leftarrow> int_add imax f n;
     igraph_vector_int_push_back s5 g
   }"

text \<open>The loop of lines 69 to 76, entered with the counter at \<open>i\<close>.\<close>

function petersen_loop :: "int \<Rightarrow> igraph_integer_t \<Rightarrow> igraph_integer_t \<Rightarrow> igraph_integer_t \<Rightarrow> state \<Rightarrow> state option" where
  "petersen_loop imax n k i s =
     (if i < n then
        (case petersen_body imax n k i s of
           None \<Rightarrow> None
         | Some s' \<Rightarrow>
             (if representable imax (i + 1) then petersen_loop imax n k (i + 1) s' else None))
      else Some s)"
  by pat_completeness auto
termination
  by (relation "measure (\<lambda>(imax, n, k, i, s). nat (n - i))") auto

declare petersen_loop.simps [simp del]

text \<open>
  Lines 66 and 67: the vector is created empty and capacity is reserved. The result is
  \<open>Inr\<close> of the state in which the function goes on, or \<open>Inl\<close> of the error code
  that the function returns and the state it leaves: when
  \<^verbatim>\<open>IGRAPH_VECTOR_INT_INIT_FINALLY\<close> fails there is no vector yet; when the
  \<^verbatim>\<open>IGRAPH_CHECK\<close> of the reservation fails, the vector, which is on the cleanup stack,
  is destroyed.
\<close>

definition edges_init_reserve :: "int \<Rightarrow> allocator \<Rightarrow> igraph_integer_t \<Rightarrow> state \<Rightarrow> ((igraph_error_t \<times> state) + state) option" where
  "edges_init_reserve imax mem n s =
     (case igraph_vector_int_init mem s 0 of
        None \<Rightarrow> None
      | Some (Inl err) \<Rightarrow> Some (Inl (err, s))
      | Some (Inr s1) \<Rightarrow> do {
          m \<leftarrow> int_mul imax 3 n;
          (case igraph_vector_int_reserve mem s1 m of
             None \<Rightarrow> None
           | Some (Inl err) \<Rightarrow> do { s' \<leftarrow> igraph_vector_int_destroy s1; Some (Inl (err, s')) }
           | Some (Inr s2) \<Rightarrow> Some (Inr s2))
        })"

text \<open>
  Lines 78 to 83: the graph is built from the vector and the vector is destroyed. When
  the factory fails, \<^verbatim>\<open>IGRAPH_CHECK\<close> returns its error code and the vector, which is
  on the cleanup stack, is destroyed.
\<close>

definition create_and_cleanup :: "allocator \<Rightarrow> igraph_integer_t \<Rightarrow> state \<Rightarrow> (igraph_error_t \<times> state) option" where
  "create_and_cleanup mem no_of_nodes s =
     (case edges s of
        None \<Rightarrow> None
      | Some v \<Rightarrow>
          (case igraph_create mem (stor v) no_of_nodes False of
             Inl err \<Rightarrow> do { s' \<leftarrow> igraph_vector_int_destroy s; Some (err, s') }
           | Inr g \<Rightarrow> do {
               s' \<leftarrow> igraph_vector_int_destroy (s\<lparr>graph := Some g\<rparr>);
               Some (IGRAPH_SUCCESS, s')
             }))"

text \<open>
  The whole function. \<^verbatim>\<open>no_of_nodes = 2*n\<close> is computed in the declarations, before
  the parameters are checked; \<^verbatim>\<open>2*k\<close> is computed only when \<^verbatim>\<open>k > 0\<close>, as
  \<^verbatim>\<open>&&\<close> evaluates its right operand only then.
\<close>

definition igraph_generalized_petersen :: "int \<Rightarrow> allocator \<Rightarrow> state \<Rightarrow> igraph_integer_t \<Rightarrow> igraph_integer_t \<Rightarrow> (igraph_error_t \<times> state) option" where
  "igraph_generalized_petersen imax mem s n k = do {
     no_of_nodes \<leftarrow> int_mul imax 2 n;
     if n < 3 then Some (IGRAPH_EINVAL, s)
     else do {
       k_in_range \<leftarrow> (if k > 0 then do { m \<leftarrow> int_mul imax 2 k; Some (m < n) } else Some False);
       if \<not> k_in_range then Some (IGRAPH_EINVAL, s)
       else do {
         r \<leftarrow> edges_init_reserve imax mem n s;
         (case r of
            Inl (err, s') \<Rightarrow> Some (err, s')
          | Inr s1 \<Rightarrow> do {
              s2 \<leftarrow> petersen_loop imax n k 0 s1;
              create_and_cleanup mem no_of_nodes s2
            })
       }
     }
   }"


subsection \<open>Observations on a run\<close>

text \<open>
  The contents of the vector \<^verbatim>\<open>edges\<close> when the loop has ended (lines 66 to 76),
  for a call that has passed the parameter checks; \<open>None\<close> when the loop is not
  reached or does not end.
\<close>

definition emitted_endpoints :: "int \<Rightarrow> allocator \<Rightarrow> state \<Rightarrow> igraph_integer_t \<Rightarrow> igraph_integer_t \<Rightarrow> igraph_integer_t list option" where
  "emitted_endpoints imax mem s n k =
     (case edges_init_reserve imax mem n s of
        Some (Inr s1) \<Rightarrow> do {
          s2 \<leftarrow> petersen_loop imax n k 0 s1;
          v \<leftarrow> edges s2;
          Some (stor v)
        }
      | _ \<Rightarrow> None)"

text \<open>The graph that a call stores behind \<^verbatim>\<open>graph\<close> when it returns success.\<close>

definition produced_graph :: "int \<Rightarrow> allocator \<Rightarrow> state \<Rightarrow> igraph_integer_t \<Rightarrow> igraph_integer_t \<Rightarrow> igraph_t option" where
  "produced_graph imax mem s n k =
     (case igraph_generalized_petersen imax mem s n k of
        Some (IGRAPH_SUCCESS, s') \<Rightarrow> graph s'
      | _ \<Rightarrow> None)"

text \<open>The error code that a call returns.\<close>

definition returned_code :: "int \<Rightarrow> allocator \<Rightarrow> state \<Rightarrow> igraph_integer_t \<Rightarrow> igraph_integer_t \<Rightarrow> igraph_error_t option" where
  "returned_code imax mem s n k = map_option fst (igraph_generalized_petersen imax mem s n k)"




subsection \<open>The specification's graph\<close>

text \<open>The precondition of section 3 of the specification.\<close>

definition valid_parameters :: "int \<Rightarrow> int \<Rightarrow> bool" where
  "valid_parameters n k \<longleftrightarrow> 3 \<le> n \<and> 0 < k \<and> 2 * k < n"

text \<open>
  The memory grants what a call with \<open>n\<close> asks for: the empty vector and the reserved
  \<open>3n\<close> integers of lines 66 and 67, and the graph of \<open>2n\<close> vertices and \<open>3n\<close> edges of
  line 78.
\<close>

definition vector_granted :: "allocator \<Rightarrow> int \<Rightarrow> bool" where
  "vector_granted mem n \<longleftrightarrow> vector_alloc mem 0 \<and> vector_alloc mem (nat (3 * n))"

definition graph_granted :: "allocator \<Rightarrow> int \<Rightarrow> bool" where
  "graph_granted mem n \<longleftrightarrow> graph_alloc mem (2 * n) (nat (3 * n))"

text \<open>
  The three edges of section 4.2 for one \<open>i\<close>, with the mathematical \<open>mod\<close>, and the
  same six endpoints as a flat sequence.
\<close>

definition petersen_triple :: "int \<Rightarrow> int \<Rightarrow> int \<Rightarrow> (int \<times> int) list" where
  "petersen_triple n k i = [(i, (i + 1) mod n), (i, i + n), (i + n, (i + k) mod n + n)]"

definition petersen_flat :: "int \<Rightarrow> int \<Rightarrow> int \<Rightarrow> int list" where
  "petersen_flat n k i = [i, (i + 1) mod n, i, i + n, i + n, (i + k) mod n + n]"

definition petersen_edges :: "int \<Rightarrow> int \<Rightarrow> (int \<times> int) list" where
  "petersen_edges n k = concat (map (petersen_triple n k) [0..n - 1])"

definition petersen_endpoints :: "int \<Rightarrow> int \<Rightarrow> int list" where
  "petersen_endpoints n k = concat (map (petersen_flat n k) [0..n - 1])"

text \<open>Appending a list of integers, one \<^verbatim>\<open>push_back\<close> after the other.\<close>

fun push_all :: "state \<Rightarrow> int list \<Rightarrow> state option" where
  "push_all s [] = Some s"
| "push_all s (x # xs) = igraph_vector_int_push_back s x \<bind> (\<lambda>s'. push_all s' xs)"

text \<open>
  The emitted edge list read by position: the first edge of every triple is the
  outer-cycle edge, the second the spoke and the third the inner-cycle edge.
\<close>

fun outer_cycle_edges :: "'a list \<Rightarrow> 'a list" where
  "outer_cycle_edges (a # b # c # es) = a # outer_cycle_edges es"
| "outer_cycle_edges es = []"

fun spoke_edges :: "'a list \<Rightarrow> 'a list" where
  "spoke_edges (a # b # c # es) = b # spoke_edges es"
| "spoke_edges es = []"

fun inner_cycle_edges :: "'a list \<Rightarrow> 'a list" where
  "inner_cycle_edges (a # b # c # es) = c # inner_cycle_edges es"
| "inner_cycle_edges es = []"

text \<open>
  The degree of a vertex in an edge list: the number of its occurrences as an endpoint.
\<close>

definition degree :: "(int \<times> int) list \<Rightarrow> int \<Rightarrow> nat" where
  "degree es v = length (filter (\<lambda>e. fst e = v) es) + length (filter (\<lambda>e. snd e = v) es)"

text \<open>
  An undirected edge as an unordered pair, and simplicity of an edge list: no self-loop,
  and no two entries that join the same unordered pair of vertices.
\<close>

definition unordered :: "int \<times> int \<Rightarrow> int \<times> int" where
  "unordered e = (min (fst e) (snd e), max (fst e) (snd e))"

definition simple_graph :: "(int \<times> int) list \<Rightarrow> bool" where
  "simple_graph es \<longleftrightarrow> list_all (\<lambda>e. fst e \<noteq> snd e) es \<and> distinct (map unordered es)"

text \<open>
  The cycles of the inner ring: the walk that starts at the inner vertex \<open>r + n\<close> and
  advances by \<open>k\<close> positions \<open>n div gcd k n\<close> times, for \<open>r = 0, \<dots>, gcd k n - 1\<close>;
  and the edges along a closed walk, from every vertex to the next and from the last
  back to the first.
\<close>

definition cycle_walk :: "int \<Rightarrow> int \<Rightarrow> int \<Rightarrow> int list" where
  "cycle_walk n k r = map (\<lambda>t. (r + t * k) mod n + n) [0..n div gcd k n - 1]"

definition inner_cycles :: "int \<Rightarrow> int \<Rightarrow> int list list" where
  "inner_cycles n k = map (cycle_walk n k) [0..gcd k n - 1]"

definition closed_walk_edges :: "int list \<Rightarrow> (int \<times> int) list" where
  "closed_walk_edges c = zip c (rotate1 c)"

text \<open>
  The unordered pairs of the outer-cycle edge and of the inner-cycle edge of triple \<open>i\<close>,
  with the remainders written out.
\<close>

definition outer_key :: "int \<Rightarrow> int \<Rightarrow> int \<times> int" where
  "outer_key n i = (if i + 1 < n then (i, i + 1) else (0, n - 1))"

definition inner_key :: "int \<Rightarrow> int \<Rightarrow> int \<Rightarrow> int \<times> int" where
  "inner_key n k i = (if i + k < n then (i + n, i + k + n) else (i + k, i + n))"

text \<open>
  The positions on the ring that the walks of \<open>inner_cycles\<close> visit, in the order of
  the walks.
\<close>

definition cycle_positions :: "int \<Rightarrow> int \<Rightarrow> int list" where
  "cycle_positions n k =
     map (\<lambda>(r, t). (r + t * k) mod n) (List.product [0..gcd k n - 1] [0..n div gcd k n - 1])"

section \<open>The run of the function\<close>

subsection \<open>Arithmetic, the vector and the loop\<close>

lemma push_all_append:
  "push_all s (xs @ ys) = push_all s xs \<bind> (\<lambda>s'. push_all s' ys)"
  by (induction xs arbitrary: s) (simp_all)

lemma int_add_Some: "representable imax (a + b) \<Longrightarrow> int_add imax a b = Some (a + b)"
  by (simp add: int_add_def)

lemma int_mul_Some: "representable imax (a * b) \<Longrightarrow> int_mul imax a b = Some (a * b)"
  by (simp add: int_mul_def)

lemma sdiv_nonneg: "0 \<le> a \<Longrightarrow> 0 < b \<Longrightarrow> (a::int) sdiv b = a div b"
  by (simp add: signed_divide_int_def sgn_if)

lemma int_rem_nonneg:
  assumes "0 \<le> a" "0 < b" "a \<le> imax"
  shows "int_rem imax a b = Some (a mod b)"
proof -
  have q: "a sdiv b = a div b" using assms by (simp add: sdiv_nonneg)
  have "0 \<le> a div b" using assms by (simp add: pos_imp_zdiv_nonneg_iff)
  moreover have "a div b \<le> a div 1" using assms by (intro zdiv_mono2) simp_all
  ultimately have "representable imax (a sdiv b)"
    using assms q by (simp add: representable_def)
  moreover have "a smod b = a mod b"
    using assms by (simp add: smod_mod_positive)
  ultimately show ?thesis using assms by (simp add: int_rem_def)
qed

lemma petersen_body_push_all:
  assumes "valid_parameters n k" "0 \<le> i" "i < n" "2 * n \<le> imax"
  shows "petersen_body imax n k i s = push_all s (petersen_flat n k i)"
proof -
  from assms have n: "3 \<le> n" and k: "0 < k" "2 * k < n"
    by (simp_all add: valid_parameters_def)
  have a: "int_add imax i 1 = Some (i + 1)"
    using assms n by (intro int_add_Some) (simp add: representable_def)
  have b: "int_rem imax (i + 1) n = Some ((i + 1) mod n)"
    using assms n by (intro int_rem_nonneg) simp_all
  have c: "int_add imax i n = Some (i + n)"
    using assms n by (intro int_add_Some) (simp add: representable_def)
  have e: "int_add imax i k = Some (i + k)"
    using assms n k by (intro int_add_Some) (simp add: representable_def)
  have f: "int_rem imax (i + k) n = Some ((i + k) mod n)"
    using assms n k by (intro int_rem_nonneg) simp_all
  have "0 \<le> (i + k) mod n" "(i + k) mod n < n" using n by simp_all
  then have "representable imax ((i + k) mod n + n)"
    using assms(4) n unfolding representable_def by linarith
  then have g: "int_add imax ((i + k) mod n) n = Some ((i + k) mod n + n)"
    by (rule int_add_Some)
  show ?thesis
    by (simp add: petersen_body_def petersen_flat_def a b c e f g)
qed

lemma petersen_loop_push_all:
  "valid_parameters n k \<Longrightarrow> 2 * n \<le> imax \<Longrightarrow> 0 \<le> i \<Longrightarrow> i \<le> n \<Longrightarrow>
    petersen_loop imax n k i s = push_all s (concat (map (petersen_flat n k) [i..n - 1]))"
proof (induction imax n k i s rule: petersen_loop.induct)
  case (1 imax n k i s)
  show ?case
  proof (cases "i < n")
    case False
    with "1.prems" have "i = n" by simp
    then show ?thesis by (simp add: petersen_loop.simps)
  next
    case True
    have body: "petersen_body imax n k i s = push_all s (petersen_flat n k i)"
      using "1.prems" True by (simp add: petersen_body_push_all)
    have rep: "representable imax (i + 1)"
      using "1.prems" True by (simp add: representable_def valid_parameters_def)
    have up: "[i..n - 1] = i # [i + 1..n - 1]"
      using True by (simp add: upto_rec1)
    show ?thesis
    proof (cases "push_all s (petersen_flat n k i)")
      case None
      then show ?thesis
        using True body by (simp add: petersen_loop.simps [of imax n k i] up push_all_append)
    next
      case (Some s')
      have "petersen_loop imax n k (i + 1) s' =
          push_all s' (concat (map (petersen_flat n k) [i + 1..n - 1]))"
        using "1.IH" [of s'] True body Some rep "1.prems" by simp
      then show ?thesis
        using True body Some rep
        by (simp add: petersen_loop.simps [of imax n k i] up push_all_append)
    qed
  qed
qed


lemma push_all_fits:
  "edges s = Some v \<Longrightarrow> length (stor v) + length xs \<le> capacity v \<Longrightarrow>
     push_all s xs = Some (s\<lparr>edges := Some (v\<lparr>stor := stor v @ xs\<rparr>)\<rparr>)"
proof (induction xs arbitrary: s v)
  case Nil
  then show ?case by simp
next
  case (Cons x xs)
  let ?v = "v\<lparr>stor := stor v @ [x]\<rparr>"
  let ?s = "s\<lparr>edges := Some ?v\<rparr>"
  have step: "igraph_vector_int_push_back s x = Some ?s"
    using Cons.prems by (simp add: igraph_vector_int_push_back_def)
  have "push_all ?s xs = Some (?s\<lparr>edges := Some (?v\<lparr>stor := stor ?v @ xs\<rparr>)\<rparr>)"
    using Cons.prems by (intro Cons.IH) simp_all
  then show ?case using step by simp
qed

lemma push_all_grows_once:
  assumes "edges s = Some v" "stor v = []" "capacity v = c" "0 < c" "length xs = 2 * c"
  shows "push_all s xs =
    Some (s\<lparr>edges := Some \<lparr>stor = xs, capacity = 2 * c\<rparr>, allocs := allocs s + 1\<rparr>)"
proof -
  define ys where "ys = take c xs"
  define zs where "zs = drop (Suc c) xs"
  have xs: "xs = ys @ (xs ! c) # zs"
    using assms by (simp add: ys_def zs_def id_take_nth_drop)
  have lys: "length ys = c" using assms by (simp add: ys_def)
  have lzs: "length zs = c - 1" using assms by (simp add: zs_def)
  let ?s1 = "s\<lparr>edges := Some (v\<lparr>stor := ys\<rparr>)\<rparr>"
  have 1: "push_all s ys = Some ?s1"
    using push_all_fits [of s v ys] assms lys by simp
  let ?v2 = "\<lparr>stor = ys @ [xs ! c], capacity = 2 * c\<rparr>"
  let ?s2 = "s\<lparr>edges := Some ?v2, allocs := allocs s + 1\<rparr>"
  have 2: "igraph_vector_int_push_back ?s1 (xs ! c) = Some ?s2"
    using assms lys by (auto simp add: igraph_vector_int_push_back_def)
  have 3: "push_all ?s2 zs = Some (?s2\<lparr>edges := Some (?v2\<lparr>stor := stor ?v2 @ zs\<rparr>)\<rparr>)"
    using lys lzs assms by (intro push_all_fits) simp_all
  have "push_all s xs = push_all s (ys @ (xs ! c) # zs)"
    using xs by simp
  also have "\<dots> = Some (?s2\<lparr>edges := Some (?v2\<lparr>stor := stor ?v2 @ zs\<rparr>)\<rparr>)"
    using 1 2 3 by (simp add: push_all_append)
  also have "\<dots> = Some (s\<lparr>edges := Some \<lparr>stor = ys @ (xs ! c) # zs, capacity = 2 * c\<rparr>,
      allocs := allocs s + 1\<rparr>)"
    by simp
  finally show ?thesis using xs by simp
qed

lemma edges_init_reserve_Some:
  assumes "3 \<le> n" "3 * n \<le> imax" "vector_granted mem n"
  shows "edges_init_reserve imax mem n s =
    Some (Inr (s\<lparr>edges := Some \<lparr>stor = [], capacity = nat (3 * n)\<rparr>, allocs := allocs s + 2\<rparr>))"
proof -
  have "int_mul imax 3 n = Some (3 * n)"
    using assms by (intro int_mul_Some) (simp add: representable_def)
  then show ?thesis
    using assms
    by (simp add: edges_init_reserve_def igraph_vector_int_init_def igraph_vector_int_reserve_def
        vector_granted_def)
qed

lemma edges_init_reserve_init_fails:
  assumes "\<not> vector_alloc mem 0"
  shows "edges_init_reserve imax mem n s = Some (Inl (IGRAPH_ENOMEM, s))"
  using assms by (simp add: edges_init_reserve_def igraph_vector_int_init_def)

lemma edges_init_reserve_reserve_fails:
  assumes "3 \<le> n" "3 * n \<le> imax" "vector_alloc mem 0" "\<not> vector_alloc mem (nat (3 * n))"
  shows "edges_init_reserve imax mem n s =
    Some (Inl (IGRAPH_ENOMEM, s\<lparr>edges := None, allocs := allocs s + 1\<rparr>))"
proof -
  have "int_mul imax 3 n = Some (3 * n)"
    using assms by (intro int_mul_Some) (simp add: representable_def)
  then show ?thesis
    using assms
    by (simp add: edges_init_reserve_def igraph_vector_int_init_def igraph_vector_int_reserve_def
        igraph_vector_int_destroy_def)
qed

lemma length_concat_flat:
  "length (concat (map (petersen_flat n k) is)) = 6 * length is"
  by (induction "is") (simp_all add: petersen_flat_def)

lemma pairs_concat_flat:
  "pairs (concat (map (petersen_flat n k) is)) = concat (map (petersen_triple n k) is)"
  by (induction "is") (simp_all add: petersen_flat_def petersen_triple_def)

lemma set_concat_flat_bounds:
  assumes "0 < n" "x \<in> set (concat (map (petersen_flat n k) [0..n - 1]))"
  shows "0 \<le> x \<and> x < 2 * n"
proof -
  from assms(2) obtain i where i: "0 \<le> i" "i \<le> n - 1" and x: "x \<in> set (petersen_flat n k i)"
    by auto
  have m: "0 \<le> (i + 1) mod n" "(i + 1) mod n < n" "0 \<le> (i + k) mod n" "(i + k) mod n < n"
    using assms(1) by simp_all
  from x have "x = i \<or> x = (i + 1) mod n \<or> x = i + n \<or> x = (i + k) mod n + n"
    by (auto simp add: petersen_flat_def)
  then show ?thesis
    using i m assms(1) by (elim disjE) linarith+
qed


lemma length_petersen_endpoints: "0 \<le> n \<Longrightarrow> length (petersen_endpoints n k) = 6 * nat n"
  by (simp add: petersen_endpoints_def length_concat_flat)

lemma pairs_petersen_endpoints: "pairs (petersen_endpoints n k) = petersen_edges n k"
  by (simp add: petersen_endpoints_def petersen_edges_def pairs_concat_flat)

lemma petersen_loop_reserved:
  assumes "valid_parameters n k" "3 * n \<le> imax"
    and "edges s1 = Some \<lparr>stor = [], capacity = nat (3 * n)\<rparr>"
  shows "petersen_loop imax n k 0 s1 =
    Some (s1\<lparr>edges := Some \<lparr>stor = petersen_endpoints n k, capacity = 2 * nat (3 * n)\<rparr>,
             allocs := allocs s1 + 1\<rparr>)"
proof -
  from assms have n: "3 \<le> n" by (simp add: valid_parameters_def)
  have "petersen_loop imax n k 0 s1 = push_all s1 (petersen_endpoints n k)"
    using assms n by (simp add: petersen_loop_push_all petersen_endpoints_def)
  also have "\<dots> = Some (s1\<lparr>edges := Some \<lparr>stor = petersen_endpoints n k, capacity = 2 * nat (3 * n)\<rparr>,
             allocs := allocs s1 + 1\<rparr>)"
    using assms(3) n
    by (intro push_all_grows_once [where v = "\<lparr>stor = [], capacity = nat (3 * n)\<rparr>"])
       (simp_all add: length_petersen_endpoints nat_mult_distrib)
  finally show ?thesis .
qed

lemma igraph_create_petersen:
  assumes "3 \<le> n"
  shows "igraph_create mem (petersen_endpoints n k) (2 * n) False =
    (if graph_granted mem n
     then Inr \<lparr>vcount = 2 * n, elist = petersen_edges n k, directed = False\<rparr>
     else Inl IGRAPH_ENOMEM)"
proof -
  have "even (length (petersen_endpoints n k))"
    using assms by (simp add: length_petersen_endpoints)
  moreover have "\<not> list_ex (\<lambda>x. x < 0 \<or> 2 * n \<le> x) (petersen_endpoints n k)"
    using assms set_concat_flat_bounds [of n _ k]
    by (fastforce simp add: list_ex_iff petersen_endpoints_def)
  moreover have "length (petersen_endpoints n k) div 2 = nat (3 * n)"
    using assms by (simp add: length_petersen_endpoints nat_mult_distrib)
  ultimately show ?thesis
    by (simp add: igraph_create_def pairs_petersen_endpoints graph_granted_def)
qed

lemma run_checks_passed:
  assumes "valid_parameters n k" "3 * n \<le> imax"
  shows "igraph_generalized_petersen imax mem s n k =
    (case edges_init_reserve imax mem n s of
       None \<Rightarrow> None
     | Some (Inl (err, s')) \<Rightarrow> Some (err, s')
     | Some (Inr s1) \<Rightarrow>
         petersen_loop imax n k 0 s1 \<bind> create_and_cleanup mem (2 * n))"
proof -
  from assms have n: "3 \<le> n" and k: "0 < k" "2 * k < n"
    by (simp_all add: valid_parameters_def)
  have m2: "int_mul imax 2 n = Some (2 * n)"
    using assms n by (intro int_mul_Some) (simp add: representable_def)
  have k2: "int_mul imax 2 k = Some (2 * k)"
    using assms n k by (intro int_mul_Some) (simp add: representable_def)
  show ?thesis
    using n k m2 k2
    by (simp add: igraph_generalized_petersen_def split: option.splits sum.splits prod.splits)
qed

lemma run_valid:
  assumes "valid_parameters n k" "3 * n \<le> imax" "vector_granted mem n" "graph_granted mem n"
  shows "igraph_generalized_petersen imax mem s n k =
    Some (IGRAPH_SUCCESS,
          s\<lparr>graph := Some \<lparr>vcount = 2 * n, elist = petersen_edges n k, directed = False\<rparr>,
            edges := None, allocs := allocs s + 3\<rparr>)"
proof -
  from assms have n: "3 \<le> n" by (simp add: valid_parameters_def)
  let ?s1 = "s\<lparr>edges := Some \<lparr>stor = [], capacity = nat (3 * n)\<rparr>, allocs := allocs s + 2\<rparr>"
  have r: "edges_init_reserve imax mem n s = Some (Inr ?s1)"
    using n assms by (simp add: edges_init_reserve_Some)
  let ?s2 = "?s1\<lparr>edges := Some \<lparr>stor = petersen_endpoints n k, capacity = 2 * nat (3 * n)\<rparr>,
             allocs := allocs ?s1 + 1\<rparr>"
  have l: "petersen_loop imax n k 0 ?s1 = Some ?s2"
    using assms by (intro petersen_loop_reserved) simp_all
  have c: "create_and_cleanup mem (2 * n) ?s2 =
    Some (IGRAPH_SUCCESS,
          s\<lparr>graph := Some \<lparr>vcount = 2 * n, elist = petersen_edges n k, directed = False\<rparr>,
            edges := None, allocs := allocs s + 3\<rparr>)"
    using n assms(4)
    by (simp add: create_and_cleanup_def igraph_create_petersen igraph_vector_int_destroy_def)
  show ?thesis
    using run_checks_passed [OF assms(1,2), of mem s] r l c by simp
qed

lemma run_no_vector:
  assumes "valid_parameters n k" "3 * n \<le> imax" "\<not> vector_granted mem n"
  shows "igraph_generalized_petersen imax mem s n k =
    Some (IGRAPH_ENOMEM,
          if vector_alloc mem 0 then s\<lparr>edges := None, allocs := allocs s + 1\<rparr> else s)"
proof -
  from assms have n: "3 \<le> n" by (simp add: valid_parameters_def)
  show ?thesis
  proof (cases "vector_alloc mem 0")
    case False
    then show ?thesis
      using run_checks_passed [OF assms(1,2), of mem s]
      by (simp add: edges_init_reserve_init_fails)
  next
    case True
    with assms(3) have "\<not> vector_alloc mem (nat (3 * n))"
      by (simp add: vector_granted_def)
    then show ?thesis
      using True n assms(2) run_checks_passed [OF assms(1,2), of mem s]
      by (simp add: edges_init_reserve_reserve_fails)
  qed
qed

lemma run_no_graph:
  assumes "valid_parameters n k" "3 * n \<le> imax" "vector_granted mem n" "\<not> graph_granted mem n"
  shows "igraph_generalized_petersen imax mem s n k =
    Some (IGRAPH_ENOMEM, s\<lparr>edges := None, allocs := allocs s + 3\<rparr>)"
proof -
  from assms have n: "3 \<le> n" by (simp add: valid_parameters_def)
  let ?s1 = "s\<lparr>edges := Some \<lparr>stor = [], capacity = nat (3 * n)\<rparr>, allocs := allocs s + 2\<rparr>"
  have r: "edges_init_reserve imax mem n s = Some (Inr ?s1)"
    using n assms by (simp add: edges_init_reserve_Some)
  let ?s2 = "?s1\<lparr>edges := Some \<lparr>stor = petersen_endpoints n k, capacity = 2 * nat (3 * n)\<rparr>,
             allocs := allocs ?s1 + 1\<rparr>"
  have l: "petersen_loop imax n k 0 ?s1 = Some ?s2"
    using assms by (intro petersen_loop_reserved) simp_all
  have c: "create_and_cleanup mem (2 * n) ?s2 =
    Some (IGRAPH_ENOMEM, s\<lparr>edges := None, allocs := allocs s + 3\<rparr>)"
    using n assms(4)
    by (simp add: create_and_cleanup_def igraph_create_petersen igraph_vector_int_destroy_def)
  show ?thesis
    using run_checks_passed [OF assms(1,2), of mem s] r l c by simp
qed

lemma run_invalid:
  assumes "representable imax (2 * n)" "0 < k \<Longrightarrow> 3 \<le> n \<Longrightarrow> representable imax (2 * k)"
    and "\<not> valid_parameters n k"
  shows "igraph_generalized_petersen imax mem s n k = Some (IGRAPH_EINVAL, s)"
proof -
  have m2: "int_mul imax 2 n = Some (2 * n)"
    using assms(1) by (rule int_mul_Some)
  show ?thesis
  proof (cases "n < 3")
    case True
    then show ?thesis using m2 by (simp add: igraph_generalized_petersen_def)
  next
    case n: False
    show ?thesis
    proof (cases "0 < k")
      case False
      then show ?thesis using m2 n by (simp add: igraph_generalized_petersen_def)
    next
      case True
      then have "int_mul imax 2 k = Some (2 * k)"
        using assms(2) n by (intro int_mul_Some) simp
      moreover have "\<not> 2 * k < n"
        using assms(3) n True by (simp add: valid_parameters_def)
      ultimately show ?thesis
        using m2 n True by (simp add: igraph_generalized_petersen_def)
    qed
  qed
qed

subsection \<open>The closed form of a run\<close>

lemma run_overflow_2n:
  "\<not> representable imax (2 * n) \<Longrightarrow> igraph_generalized_petersen imax mem s n k = None"
  by (simp add: igraph_generalized_petersen_def int_mul_def)

lemma run_overflow_2k:
  "representable imax (2 * n) \<Longrightarrow> 3 \<le> n \<Longrightarrow> 0 < k \<Longrightarrow> \<not> representable imax (2 * k) \<Longrightarrow>
     igraph_generalized_petersen imax mem s n k = None"
  by (simp add: igraph_generalized_petersen_def int_mul_def)

lemma edges_init_reserve_overflow:
  "vector_alloc mem 0 \<Longrightarrow> \<not> representable imax (3 * n) \<Longrightarrow>
     edges_init_reserve imax mem n s = None"
  by (simp add: edges_init_reserve_def int_mul_def igraph_vector_int_init_def)

lemma run_overflow_3n:
  "valid_parameters n k \<Longrightarrow> vector_alloc mem 0 \<Longrightarrow> \<not> representable imax (3 * n) \<Longrightarrow>
     igraph_generalized_petersen imax mem s n k = None"
  by (simp add: igraph_generalized_petersen_def int_mul_def edges_init_reserve_overflow
      valid_parameters_def)

lemma run_init_fails:
  "valid_parameters n k \<Longrightarrow> representable imax (2 * n) \<Longrightarrow> representable imax (2 * k) \<Longrightarrow>
     \<not> vector_alloc mem 0 \<Longrightarrow>
     igraph_generalized_petersen imax mem s n k = Some (IGRAPH_ENOMEM, s)"
  by (simp add: igraph_generalized_petersen_def int_mul_def edges_init_reserve_init_fails
      valid_parameters_def)

lemma valid_representable_3n:
  "valid_parameters n k \<Longrightarrow> representable imax (3 * n) \<longleftrightarrow> 3 * n \<le> imax"
  by (auto simp add: valid_parameters_def representable_def)

lemma length_petersen_edges: "0 \<le> n \<Longrightarrow> length (petersen_edges n k) = 3 * nat n"
proof -
  have "length (concat (map (petersen_triple n k) is)) = 3 * length is" for "is"
    by (induction "is") (simp_all add: petersen_triple_def)
  then show "0 \<le> n \<Longrightarrow> length (petersen_edges n k) = 3 * nat n"
    by (simp add: petersen_edges_def)
qed

text \<open>
  The result of every call: undefined when a product overflows, \<^verbatim>\<open>IGRAPH_EINVAL\<close> with
  the state untouched when the parameters are not valid, \<^verbatim>\<open>IGRAPH_ENOMEM\<close> with no graph
  stored and no vector left when the memory refuses the vector or the graph, and success
  with the graph of the specification otherwise.
\<close>

lemma run_closed_form:
  "igraph_generalized_petersen imax mem s n k =
     (if \<not> representable imax (2 * n) then None
      else if n < 3 \<or> k \<le> 0 then Some (IGRAPH_EINVAL, s)
      else if \<not> representable imax (2 * k) then None
      else if n \<le> 2 * k then Some (IGRAPH_EINVAL, s)
      else if \<not> vector_alloc mem 0 then Some (IGRAPH_ENOMEM, s)
      else if \<not> representable imax (3 * n) then None
      else if \<not> vector_alloc mem (nat (3 * n))
        then Some (IGRAPH_ENOMEM, s\<lparr>edges := None, allocs := allocs s + 1\<rparr>)
      else if \<not> graph_alloc mem (2 * n) (nat (3 * n))
        then Some (IGRAPH_ENOMEM, s\<lparr>edges := None, allocs := allocs s + 3\<rparr>)
      else Some (IGRAPH_SUCCESS,
                 s\<lparr>graph := Some \<lparr>vcount = 2 * n, elist = petersen_edges n k, directed = False\<rparr>,
                   edges := None, allocs := allocs s + 3\<rparr>))"
proof (cases "representable imax (2 * n)")
  case False
  then show ?thesis by (simp add: run_overflow_2n)
next
  case r2n: True
  show ?thesis
  proof (cases "n < 3 \<or> k \<le> 0")
    case True
    then have "\<not> valid_parameters n k" by (auto simp add: valid_parameters_def)
    with r2n True show ?thesis by (auto simp add: run_invalid)
  next
    case nk: False
    show ?thesis
    proof (cases "representable imax (2 * k)")
      case False
      with r2n nk show ?thesis by (simp add: run_overflow_2k)
    next
      case r2k: True
      show ?thesis
      proof (cases "n \<le> 2 * k")
        case True
        then have "\<not> valid_parameters n k" by (simp add: valid_parameters_def)
        with r2n nk r2k True show ?thesis by (simp add: run_invalid)
      next
        case False
        with nk have v: "valid_parameters n k" by (simp add: valid_parameters_def)
        show ?thesis
        proof (cases "vector_alloc mem 0")
          case False
          with r2n nk r2k \<open>\<not> n \<le> 2 * k\<close> v show ?thesis by (simp add: run_init_fails)
        next
          case a0: True
          show ?thesis
          proof (cases "representable imax (3 * n)")
            case False
            with r2n nk r2k \<open>\<not> n \<le> 2 * k\<close> v a0 show ?thesis by (simp add: run_overflow_3n)
          next
            case True
            with v have r3n: "3 * n \<le> imax" by (simp add: valid_representable_3n)
            show ?thesis
            proof (cases "vector_alloc mem (nat (3 * n))")
              case False
              then have "\<not> vector_granted mem n" by (simp add: vector_granted_def)
              with r2n nk r2k \<open>\<not> n \<le> 2 * k\<close> v a0 True r3n False show ?thesis
                by (simp add: run_no_vector)
            next
              case a3: True
              with a0 have vg: "vector_granted mem n" by (simp add: vector_granted_def)
              show ?thesis
              proof (cases "graph_alloc mem (2 * n) (nat (3 * n))")
                case False
                then have "\<not> graph_granted mem n" by (simp add: graph_granted_def)
                with r2n nk r2k \<open>\<not> n \<le> 2 * k\<close> v a0 True r3n a3 vg False show ?thesis
                  by (simp add: run_no_graph)
              next
                case g: True
                then have "graph_granted mem n" by (simp add: graph_granted_def)
                with r2n nk r2k \<open>\<not> n \<le> 2 * k\<close> v a0 True r3n a3 vg g show ?thesis
                  by (simp add: run_valid)
              qed
            qed
          qed
        qed
      qed
    qed
  qed
qed

lemma emitted_valid:
  assumes "valid_parameters n k" "3 * n \<le> imax" "vector_granted mem n"
  shows "emitted_endpoints imax mem s n k = Some (petersen_endpoints n k)"
proof -
  from assms have n: "3 \<le> n" by (simp add: valid_parameters_def)
  let ?s1 = "s\<lparr>edges := Some \<lparr>stor = [], capacity = nat (3 * n)\<rparr>, allocs := allocs s + 2\<rparr>"
  have "petersen_loop imax n k 0 ?s1 =
      Some (?s1\<lparr>edges := Some \<lparr>stor = petersen_endpoints n k, capacity = 2 * nat (3 * n)\<rparr>,
                allocs := allocs ?s1 + 1\<rparr>)"
    using assms by (intro petersen_loop_reserved) simp_all
  then show ?thesis
    using assms n by (simp add: emitted_endpoints_def edges_init_reserve_Some)
qed

lemma emitted_needs:
  assumes "valid_parameters n k" "emitted_endpoints imax mem s n k = Some xs"
  shows "3 * n \<le> imax \<and> vector_granted mem n"
proof -
  from assms(1) have n: "3 \<le> n" by (simp add: valid_parameters_def)
  have a: "vector_alloc mem 0"
  proof (rule ccontr)
    assume "\<not> vector_alloc mem 0"
    then have "emitted_endpoints imax mem s n k = None"
      by (simp add: emitted_endpoints_def edges_init_reserve_init_fails)
    with assms(2) show False by simp
  qed
  have b: "3 * n \<le> imax"
  proof (rule ccontr)
    assume "\<not> 3 * n \<le> imax"
    then have "\<not> representable imax (3 * n)" by (simp add: representable_def)
    then have "emitted_endpoints imax mem s n k = None"
      using a by (simp add: emitted_endpoints_def edges_init_reserve_overflow)
    with assms(2) show False by simp
  qed
  have c: "vector_alloc mem (nat (3 * n))"
  proof (rule ccontr)
    assume "\<not> vector_alloc mem (nat (3 * n))"
    then have "emitted_endpoints imax mem s n k = None"
      using a b n by (simp add: emitted_endpoints_def edges_init_reserve_reserve_fails)
    with assms(2) show False by simp
  qed
  from a b c show ?thesis by (simp add: vector_granted_def)
qed

lemma emitted_is:
  assumes "valid_parameters n k" "emitted_endpoints imax mem s n k = Some xs"
  shows "xs = petersen_endpoints n k"
  using emitted_needs [OF assms] emitted_valid [OF assms(1), of imax mem s] assms(2) by simp

lemma produced_valid:
  assumes "valid_parameters n k" "3 * n \<le> imax" "vector_granted mem n" "graph_granted mem n"
  shows "produced_graph imax mem s n k =
    Some \<lparr>vcount = 2 * n, elist = petersen_edges n k, directed = False\<rparr>"
  using assms by (simp add: produced_graph_def run_valid)

lemma produced_needs:
  assumes "valid_parameters n k" "produced_graph imax mem s n k = Some g"
  shows "3 * n \<le> imax \<and> vector_granted mem n \<and> graph_granted mem n"
  using assms
  by (auto simp add: produced_graph_def run_closed_form valid_parameters_def representable_def
      vector_granted_def graph_granted_def split: if_splits)

lemma produced_is:
  assumes "valid_parameters n k" "produced_graph imax mem s n k = Some g"
  shows "g = \<lparr>vcount = 2 * n, elist = petersen_edges n k, directed = False\<rparr>"
  using produced_needs [OF assms] produced_valid [OF assms(1), of imax mem s] assms(2) by simp

lemma emitted_iff:
  assumes "valid_parameters n k"
  shows "(emitted_endpoints imax mem s n k \<noteq> None) = (3 * n \<le> imax \<and> vector_granted mem n)"
  using emitted_needs [OF assms, of imax mem s] emitted_valid [OF assms, of imax mem s]
  by (cases "emitted_endpoints imax mem s n k") auto

lemma produced_iff:
  assumes "valid_parameters n k"
  shows "(produced_graph imax mem s n k \<noteq> None) =
    (3 * n \<le> imax \<and> vector_granted mem n \<and> graph_granted mem n)"
  using produced_needs [OF assms, of imax mem s] produced_valid [OF assms, of imax mem s]
  by (cases "produced_graph imax mem s n k") auto

lemma produced_only_on_success:
  assumes "returned_code imax mem s n k \<noteq> Some IGRAPH_SUCCESS"
  shows "produced_graph imax mem s n k = None"
  using assms
  by (auto simp add: produced_graph_def returned_code_def split: option.splits igraph_error_t.splits)

lemma int_rem_Some_nonneg:
  assumes "0 \<le> a" "0 < b" "int_rem imax a b = Some r"
  shows "r = a mod b"
  using assms by (simp add: int_rem_def smod_mod_positive split: if_splits)

text \<open>
  On every input whose doubles \<open>2n\<close> and \<open>2k\<close> are values of \<^verbatim>\<open>igraph_integer_t\<close>,
  the call returns \<^verbatim>\<open>IGRAPH_EINVAL\<close> exactly when the parameters are not valid, and
  then it hands back the state it was given: the graph is untouched and no buffer has
  been allocated.
\<close>

lemma rejection_in_range:
  assumes "representable imax (2 * n)" "representable imax (2 * k)"
  shows "(returned_code imax mem s n k = Some IGRAPH_EINVAL \<longleftrightarrow> \<not> valid_parameters n k)
       \<and> (\<not> valid_parameters n k \<longrightarrow>
            igraph_generalized_petersen imax mem s n k = Some (IGRAPH_EINVAL, s))"
  using assms by (auto simp add: returned_code_def run_closed_form valid_parameters_def)

lemma rejection_at_boundaries:
  assumes "representable imax (2 * n)" "representable imax (2 * k)"
    and "n = 2 \<or> k = 0 \<or> 2 * k = n \<or> k < 0"
  shows "igraph_generalized_petersen imax mem s n k = Some (IGRAPH_EINVAL, s)"
proof -
  from assms(3) have "\<not> valid_parameters n k" by (auto simp add: valid_parameters_def)
  with rejection_in_range [OF assms(1,2)] show ?thesis by blast
qed

text \<open>
  Whenever a call returns \<^verbatim>\<open>IGRAPH_EINVAL\<close>, the parameters are not valid and the state
  is the one the call was given: nothing has been allocated and the graph is untouched.
\<close>

lemma rejection_leaves_state:
  assumes "igraph_generalized_petersen imax mem s n k = Some (IGRAPH_EINVAL, s')"
  shows "s' = s \<and> \<not> valid_parameters n k"
  using assms by (auto simp add: run_closed_form valid_parameters_def split: if_splits)

subsection \<open>Degrees in the edge list\<close>

lemma triples_by_position:
  "outer_cycle_edges (concat (map (petersen_triple n k) is)) = map (\<lambda>i. (i, (i + 1) mod n)) is"
  "spoke_edges (concat (map (petersen_triple n k) is)) = map (\<lambda>i. (i, i + n)) is"
  "inner_cycle_edges (concat (map (petersen_triple n k) is)) = map (\<lambda>i. (i + n, (i + k) mod n + n)) is"
  by (induction "is") (simp_all add: petersen_triple_def)

lemma degree_append: "degree (xs @ ys) v = degree xs v + degree ys v"
  by (simp add: degree_def)

lemma degree_by_position:
  "degree (concat (map (petersen_triple n k) is)) v =
     degree (map (\<lambda>i. (i, (i + 1) mod n)) is) v + degree (map (\<lambda>i. (i, i + n)) is) v
   + degree (map (\<lambda>i. (i + n, (i + k) mod n + n)) is) v"
proof (induction "is")
  case Nil
  then show ?case by (simp add: degree_def)
next
  case (Cons i "is")
  have t: "degree (petersen_triple n k i) v =
      degree [(i, (i + 1) mod n)] v + degree [(i, i + n)] v + degree [(i + n, (i + k) mod n + n)] v"
    by (simp add: petersen_triple_def degree_def)
  have c: "degree (map f (i # is)) v = degree [f i] v + degree (map f is) v"
    for f :: "int \<Rightarrow> int \<times> int"
    by (simp add: degree_def)
  have "degree (concat (map (petersen_triple n k) (i # is))) v =
      degree (petersen_triple n k i) v + degree (concat (map (petersen_triple n k) is)) v"
    by (simp add: degree_append)
  then show ?case
    unfolding t c Cons.IH by simp
qed

lemma degree_map:
  "degree (map (\<lambda>i. (f i, g i)) is) v =
     length (filter (\<lambda>i. f i = v) is) + length (filter (\<lambda>i. g i = v) is)"
  by (simp add: degree_def filter_map o_def)

lemma count_shifted:
  assumes "0 < n" "0 \<le> v" "v < n"
  shows "length (filter (\<lambda>i. (i + k) mod n = v) [0..n - 1]) = 1"
proof -
  have "{i. (i + k) mod n = v} \<inter> set [0..n - 1] = {(v - k) mod n}"
  proof (intro set_eqI iffI)
    fix i assume "i \<in> {i. (i + k) mod n = v} \<inter> set [0..n - 1]"
    then have i: "0 \<le> i" "i < n" and v: "(i + k) mod n = v" by auto
    have "(v - k) mod n = ((i + k) mod n - k) mod n" using v by simp
    also have "\<dots> = (i + k - k) mod n" by (rule mod_diff_left_eq)
    also have "\<dots> = i" using i by simp
    finally show "i \<in> {(v - k) mod n}" by simp
  next
    fix i assume "i \<in> {(v - k) mod n}"
    then have i: "i = (v - k) mod n" by simp
    have "(i + k) mod n = ((v - k) mod n + k) mod n" using i by simp
    also have "\<dots> = (v - k + k) mod n" by (rule mod_add_left_eq)
    also have "\<dots> = v" using assms by simp
    finally have "(i + k) mod n = v" .
    moreover have "0 \<le> i" "i < n" using i assms(1) by simp_all
    ultimately show "i \<in> {i. (i + k) mod n = v} \<inter> set [0..n - 1]" by simp
  qed
  then show ?thesis
    by (simp add: distinct_length_filter)
qed

lemma count_identity:
  "length (filter (\<lambda>i. i = v) [0..n - 1]) = (if 0 \<le> v \<and> v < n then 1 else 0)"
proof -
  have "{i. i = v} \<inter> set [0..n - 1] = (if 0 \<le> v \<and> v < n then {v} else {})"
    by auto
  then show ?thesis by (simp add: distinct_length_filter)
qed

lemma count_offset:
  "length (filter (\<lambda>i. i + n = v) [0..n - 1]) = (if n \<le> v \<and> v < 2 * n then 1 else 0)"
proof -
  have "{i. i + n = v} \<inter> set [0..n - 1] = (if n \<le> v \<and> v < 2 * n then {v - n} else {})"
    by auto
  then show ?thesis by (simp add: distinct_length_filter)
qed

lemma count_shifted_offset:
  assumes "0 < n"
  shows "length (filter (\<lambda>i. (i + k) mod n + n = v) [0..n - 1]) = (if n \<le> v \<and> v < 2 * n then 1 else 0)"
proof (cases "n \<le> v \<and> v < 2 * n")
  case True
  have "(\<lambda>i. (i + k) mod n + n = v) = (\<lambda>i. (i + k) mod n = v - n)" by auto
  then show ?thesis using True assms count_shifted [of n "v - n" k] by simp
next
  case False
  have "\<not> (i + k) mod n + n = v" for i
  proof
    assume e: "(i + k) mod n + n = v"
    have "0 \<le> (i + k) mod n" "(i + k) mod n < n" using assms by simp_all
    with e False show False by linarith
  qed
  then show ?thesis using False by simp
qed

lemma count_shifted_outside:
  assumes "0 < n" "n \<le> v"
  shows "length (filter (\<lambda>i. (i + k) mod n = v) [0..n - 1]) = 0"
proof -
  have "\<not> (i + k) mod n = v" for i
  proof
    assume e: "(i + k) mod n = v"
    have "(i + k) mod n < n" using assms by simp
    with e assms show False by linarith
  qed
  then show ?thesis by simp
qed

lemma degrees_of_petersen_edges:
  assumes "0 < n"
  shows "0 \<le> v \<and> v < n \<Longrightarrow>
           degree (outer_cycle_edges (petersen_edges n k)) v = 2
         \<and> degree (spoke_edges (petersen_edges n k)) v = 1
         \<and> degree (inner_cycle_edges (petersen_edges n k)) v = 0"
    and "n \<le> v \<and> v < 2 * n \<Longrightarrow>
           degree (outer_cycle_edges (petersen_edges n k)) v = 0
         \<and> degree (spoke_edges (petersen_edges n k)) v = 1
         \<and> degree (inner_cycle_edges (petersen_edges n k)) v = 2"
    and "0 \<le> v \<and> v < 2 * n \<Longrightarrow> degree (petersen_edges n k) v = 3"
proof -
  show o: "degree (outer_cycle_edges (petersen_edges n k)) v = 2
         \<and> degree (spoke_edges (petersen_edges n k)) v = 1
         \<and> degree (inner_cycle_edges (petersen_edges n k)) v = 0" if "0 \<le> v \<and> v < n"
    using that assms count_shifted [of n v 1]
    by (simp add: petersen_edges_def triples_by_position degree_map count_identity count_offset
        count_shifted_offset)
  show i: "degree (outer_cycle_edges (petersen_edges n k)) v = 0
         \<and> degree (spoke_edges (petersen_edges n k)) v = 1
         \<and> degree (inner_cycle_edges (petersen_edges n k)) v = 2" if "n \<le> v \<and> v < 2 * n"
    using that assms count_shifted_outside [of n v 1]
    by (simp add: petersen_edges_def triples_by_position degree_map count_identity count_offset
        count_shifted_offset)
  show "degree (petersen_edges n k) v = 3" if "0 \<le> v \<and> v < 2 * n"
  proof (cases "v < n")
    case True
    with that o show ?thesis
      by (simp add: petersen_edges_def degree_by_position triples_by_position)
  next
    case False
    with that i show ?thesis
      by (simp add: petersen_edges_def degree_by_position triples_by_position)
  qed
qed

subsection \<open>Simplicity of the edge list\<close>

lemma shift_mod:
  fixes i k n :: int
  assumes "0 \<le> i" "i < n" "0 \<le> k" "k < n"
  shows "(i + k) mod n = (if i + k < n then i + k else i + k - n)"
proof (cases "i + k < n")
  case True
  moreover have "0 \<le> i + k" using assms by simp
  ultimately show ?thesis by (simp add: mod_pos_pos_trivial)
next
  case False
  have "0 \<le> i + k - n" "i + k - n < n" using False assms by simp_all
  then have "(i + k - n) mod n = i + k - n" by (rule mod_pos_pos_trivial)
  then have "(i + k) mod n = i + k - n" by (simp only: minus_mod_self2)
  then show ?thesis using False by simp
qed

lemma mset_by_position:
  "mset (map f (concat (map (petersen_triple n k) is))) =
     mset (map (f \<circ> (\<lambda>i. (i, (i + 1) mod n))) is @ map (f \<circ> (\<lambda>i. (i, i + n))) is
           @ map (f \<circ> (\<lambda>i. (i + n, (i + k) mod n + n))) is)"
  by (induction "is") (simp_all add: petersen_triple_def)

lemma unordered_outer:
  assumes "3 \<le> n" "0 \<le> i" "i < n"
  shows "unordered (i, (i + 1) mod n) = outer_key n i"
  using assms shift_mod [of i n 1] by (simp add: unordered_def outer_key_def)

lemma unordered_spoke:
  assumes "0 \<le> n"
  shows "unordered (i, i + n) = (i, i + n)"
  using assms by (simp add: unordered_def)

lemma unordered_inner:
  assumes "0 \<le> i" "i < n" "0 < k" "k < n"
  shows "unordered (i + n, (i + k) mod n + n) = inner_key n k i"
  using assms shift_mod [of i n k] by (simp add: unordered_def inner_key_def)

lemma unordered_by_position:
  assumes "valid_parameters n k"
  shows "mset (map unordered (petersen_edges n k)) =
    mset (map (outer_key n) [0..n - 1] @ map (\<lambda>i. (i, i + n)) [0..n - 1]
          @ map (inner_key n k) [0..n - 1])"
proof -
  from assms have n: "3 \<le> n" and k: "0 < k" "k < n" by (simp_all add: valid_parameters_def)
  have o: "map (unordered \<circ> (\<lambda>i. (i, (i + 1) mod n))) [0..n - 1] = map (outer_key n) [0..n - 1]"
    using n by (intro map_cong) (simp_all add: unordered_outer)
  have s: "map (unordered \<circ> (\<lambda>i. (i, i + n))) [0..n - 1] = map (\<lambda>i. (i, i + n)) [0..n - 1]"
    using n by (intro map_cong) (simp_all add: unordered_spoke)
  have i: "map (unordered \<circ> (\<lambda>i. (i + n, (i + k) mod n + n))) [0..n - 1] = map (inner_key n k) [0..n - 1]"
    using n k by (intro map_cong) (simp_all add: unordered_inner)
  show ?thesis
    unfolding petersen_edges_def mset_by_position o s i ..
qed

lemma distinct_keys:
  assumes "valid_parameters n k"
  shows "distinct (map (outer_key n) [0..n - 1] @ map (\<lambda>i. (i, i + n)) [0..n - 1]
          @ map (inner_key n k) [0..n - 1])"
proof -
  from assms have n: "3 \<le> n" and k: "0 < k" "2 * k < n" by (simp_all add: valid_parameters_def)
  have o: "distinct (map (outer_key n) [0..n - 1])"
    using n by (auto simp add: distinct_map inj_on_def outer_key_def split: if_splits)
  have s: "distinct (map (\<lambda>i. (i, i + n)) [0..n - 1])"
    by (auto simp add: distinct_map inj_on_def)
  have i: "distinct (map (inner_key n k) [0..n - 1])"
    using n k by (auto simp add: distinct_map inj_on_def inner_key_def split: if_splits)
  have os: "set (map (outer_key n) [0..n - 1]) \<inter> set (map (\<lambda>i. (i, i + n)) [0..n - 1]) = {}"
    using n by (auto simp add: outer_key_def split: if_splits)
  have oi: "set (map (outer_key n) [0..n - 1]) \<inter> set (map (inner_key n k) [0..n - 1]) = {}"
    using n k by (auto simp add: outer_key_def inner_key_def split: if_splits)
  have si: "set (map (\<lambda>i. (i, i + n)) [0..n - 1]) \<inter> set (map (inner_key n k) [0..n - 1]) = {}"
    using n k by (auto simp add: inner_key_def split: if_splits)
  show ?thesis
    using o s i os oi si by (simp add: Int_Un_distrib)
qed

lemma no_self_loops:
  assumes "valid_parameters n k"
  shows "list_all (\<lambda>e. fst e \<noteq> snd e) (petersen_edges n k)"
proof -
  from assms have n: "3 \<le> n" and k: "0 < k" "k < n" by (simp_all add: valid_parameters_def)
  have "fst e \<noteq> snd e" if "e \<in> set (petersen_edges n k)" for e
  proof -
    from that obtain i where i: "0 \<le> i" "i < n" and e: "e \<in> set (petersen_triple n k i)"
      by (auto simp add: petersen_edges_def)
    have 1: "(i + 1) mod n \<noteq> i" using shift_mod [of i n 1] i n by (simp split: if_splits)
    have 2: "(i + k) mod n \<noteq> i" using shift_mod [of i n k] i n k by (simp split: if_splits)
    from e 1 2 n show ?thesis by (auto simp add: petersen_triple_def)
  qed
  then show ?thesis by (simp add: list_all_iff)
qed

lemma simple_petersen_edges:
  assumes "valid_parameters n k"
  shows "simple_graph (petersen_edges n k)"
proof -
  have "distinct (map unordered (petersen_edges n k))"
    using mset_eq_imp_distinct_iff [OF unordered_by_position [OF assms]] distinct_keys [OF assms]
    by simp
  then show ?thesis
    using no_self_loops [OF assms] by (simp add: simple_graph_def)
qed

lemma half_step_duplicates_inner_edge:
  assumes "0 < k" "2 * k = n"
  shows "\<not> simple_graph (petersen_edges n k)"
proof -
  let ?inner = "\<lambda>i. (i + n, (i + k) mod n + n)"
  have "(k + k) mod n = 0" using assms by (simp add: mult_2 [symmetric])
  then have "unordered (?inner 0) = unordered (?inner k)"
    using assms by (simp add: unordered_def)
  moreover have "0 \<in> set [0..n - 1]" "k \<in> set [0..n - 1]" "0 \<noteq> k" using assms by simp_all
  ultimately have "\<not> inj_on (unordered \<circ> ?inner) (set [0..n - 1])"
    unfolding inj_on_def o_def by blast
  then have "\<not> distinct (map (unordered \<circ> ?inner) [0..n - 1])"
    by (simp add: distinct_map)
  then have "\<not> distinct (map (unordered \<circ> (\<lambda>i. (i, (i + 1) mod n))) [0..n - 1]
        @ map (unordered \<circ> (\<lambda>i. (i, i + n))) [0..n - 1] @ map (unordered \<circ> ?inner) [0..n - 1])"
    by simp
  moreover have "mset (map unordered (petersen_edges n k)) =
      mset (map (unordered \<circ> (\<lambda>i. (i, (i + 1) mod n))) [0..n - 1]
        @ map (unordered \<circ> (\<lambda>i. (i, i + n))) [0..n - 1] @ map (unordered \<circ> ?inner) [0..n - 1])"
    unfolding petersen_edges_def by (rule mset_by_position)
  ultimately have "\<not> distinct (map unordered (petersen_edges n k))"
    using mset_eq_imp_distinct_iff by blast
  then show ?thesis by (simp add: simple_graph_def)
qed

subsection \<open>The cycles of the inner ring\<close>

lemma dvd_small_int:
  fixes d x :: int
  assumes "d dvd x" "\<bar>x\<bar> < d"
  shows "x = 0"
proof (rule ccontr)
  assume "x \<noteq> 0"
  then have "\<bar>d\<bar> \<le> \<bar>x\<bar>" using assms(1) by (rule dvd_imp_le_int)
  with assms(2) show False by simp
qed

lemma gcd_facts:
  fixes n k :: int
  assumes "0 < n"
  shows "0 < gcd k n" "0 < n div gcd k n" "gcd k n * (n div gcd k n) = n"
    "gcd k n * (k div gcd k n) = k" "coprime (n div gcd k n) (k div gcd k n)"
proof -
  show g: "0 < gcd k n" using assms by simp
  show nL: "gcd k n * (n div gcd k n) = n" by simp
  show "gcd k n * (k div gcd k n) = k" by simp
  show "0 < n div gcd k n"
  proof (rule ccontr)
    assume "\<not> 0 < n div gcd k n"
    then have "n div gcd k n \<le> 0" by simp
    with g have "gcd k n * (n div gcd k n) \<le> 0"
      by (intro mult_nonneg_nonpos) simp_all
    then have "n \<le> 0" by (simp only: nL)
    with assms show False by simp
  qed
  have "coprime (n div gcd n k) (k div gcd n k)"
    using assms by (intro div_gcd_coprime) simp
  then show "coprime (n div gcd k n) (k div gcd k n)"
    by (simp add: gcd.commute)
qed

lemma period_multiple:
  fixes n k :: int
  assumes "0 < n"
  shows "n dvd (n div gcd k n) * k"
proof -
  have "(n div gcd k n) * k = (n div gcd k n) * (gcd k n * (k div gcd k n))"
    by simp
  also have "\<dots> = (gcd k n * (n div gcd k n)) * (k div gcd k n)"
    by (simp only: mult_ac)
  also have "\<dots> = n * (k div gcd k n)"
    by simp
  finally show ?thesis by simp
qed

lemma step_mod_period:
  fixes n k t :: int
  assumes "0 < n"
  shows "(r + (t mod (n div gcd k n)) * k) mod n = (r + t * k) mod n"
proof -
  let ?L = "n div gcd k n"
  have "t * k - (t mod ?L) * k = (t div ?L) * (?L * k)"
    by (simp add: algebra_simps flip: minus_mod_eq_mult_div)
  then have "n dvd t * k - (t mod ?L) * k"
    using period_multiple [OF assms, of k] by simp
  then have "n dvd (r + t * k) - (r + (t mod ?L) * k)"
    by (simp add: algebra_simps)
  then show ?thesis
    by (simp only: mod_eq_dvd_iff [symmetric])
qed

lemma step_injective:
  fixes n k r r' t t' :: int
  assumes n: "0 < n"
    and r: "0 \<le> r" "r < gcd k n" "0 \<le> r'" "r' < gcd k n"
    and t: "0 \<le> t" "t < n div gcd k n" "0 \<le> t'" "t' < n div gcd k n"
    and eq: "(r + t * k) mod n = (r' + t' * k) mod n"
  shows "r = r' \<and> t = t'"
proof -
  let ?g = "gcd k n" and ?L = "n div gcd k n" and ?k' = "k div gcd k n"
  note f = gcd_facts [OF n, of k]
  from eq have "n dvd (r + t * k) - (r' + t' * k)"
    by (simp only: mod_eq_dvd_iff)
  then have d: "n dvd (r - r') + (t - t') * k"
    by (simp add: algebra_simps)
  have "?g dvd n" "?g dvd k" by simp_all
  then have "?g dvd (r - r') + (t - t') * k" "?g dvd (t - t') * k"
    using d by (auto intro: dvd_trans)
  then have "?g dvd r - r'"
    by (simp only: dvd_add_left_iff)
  moreover have "\<bar>r - r'\<bar> < ?g" using r by linarith
  ultimately have rr: "r - r' = 0" by (rule dvd_small_int)
  with d have "n dvd (t - t') * k" by simp
  moreover have "?g * ((t - t') * ?k') = (t - t') * (?g * ?k')"
    by (simp only: mult_ac)
  ultimately have "n dvd ?g * ((t - t') * ?k')"
    by (simp only: f(4))
  then have "?g * ?L dvd ?g * ((t - t') * ?k')"
    by (simp only: f(3))
  then have "?L dvd (t - t') * ?k'"
    using f(1) by (simp only: dvd_mult_cancel_left) auto
  then have "?L dvd t - t'"
    using f(5) by (simp add: coprime_dvd_mult_left_iff)
  moreover have "\<bar>t - t'\<bar> < ?L" using t by linarith
  ultimately have "t - t' = 0" by (rule dvd_small_int)
  with rr show ?thesis by simp
qed

lemma concat_map_product:
  "concat (map (\<lambda>r. map (f r) ts) rs) = map (\<lambda>(r, t). f r t) (List.product rs ts)"
  by (induction rs) (simp_all add: o_def)

lemma concat_inner_cycles:
  "concat (inner_cycles n k) = map (\<lambda>x. x + n) (cycle_positions n k)"
  by (simp add: inner_cycles_def cycle_walk_def [abs_def] cycle_positions_def o_def
      concat_map_product case_prod_unfold)

lemma distinct_cycle_positions:
  assumes "0 < n"
  shows "distinct (cycle_positions n k)"
proof -
  have "inj_on (\<lambda>(r, t). (r + t * k) mod n)
      (set [0..gcd k n - 1] \<times> set [0..n div gcd k n - 1])"
  proof (rule inj_onI)
    fix p q
    assume p: "p \<in> set [0..gcd k n - 1] \<times> set [0..n div gcd k n - 1]"
      and q: "q \<in> set [0..gcd k n - 1] \<times> set [0..n div gcd k n - 1]"
      and e: "(case p of (r, t) \<Rightarrow> (r + t * k) mod n) = (case q of (r, t) \<Rightarrow> (r + t * k) mod n)"
    obtain r t where pr: "p = (r, t)" by (cases p)
    obtain r' t' where qr: "q = (r', t')" by (cases q)
    from p q pr qr have "0 \<le> r" "r < gcd k n" "0 \<le> r'" "r' < gcd k n"
      "0 \<le> t" "t < n div gcd k n" "0 \<le> t'" "t' < n div gcd k n"
      by simp_all
    moreover from e pr qr have "(r + t * k) mod n = (r' + t' * k) mod n" by simp
    ultimately have "r = r' \<and> t = t'" by (rule step_injective [OF assms])
    with pr qr show "p = q" by simp
  qed
  then show ?thesis
    by (simp add: cycle_positions_def distinct_map distinct_product set_product)
qed

lemma length_cycle_positions:
  assumes "0 < n"
  shows "length (cycle_positions n k) = nat n"
proof -
  note f = gcd_facts [OF assms, of k]
  have "length (cycle_positions n k) = nat (gcd k n) * nat (n div gcd k n)"
    using f(1,2) by (simp add: cycle_positions_def)
  also have "\<dots> = nat (gcd k n * (n div gcd k n))"
    by (rule nat_mult_distrib [symmetric]) (rule less_imp_le [OF f(1)])
  also have "\<dots> = nat n" by (simp only: f(3))
  finally show ?thesis .
qed

lemma set_cycle_positions:
  assumes "0 < n"
  shows "set (cycle_positions n k) = set [0..n - 1]"
proof (rule card_subset_eq)
  show "finite (set [0..n - 1])" by simp
  show "set (cycle_positions n k) \<subseteq> set [0..n - 1]"
    using assms by (auto simp add: cycle_positions_def)
  have "card (set (cycle_positions n k)) = nat n"
    using distinct_cycle_positions [OF assms] length_cycle_positions [OF assms]
    by (simp add: distinct_card)
  then show "card (set (cycle_positions n k)) = card (set [0..n - 1])"
    using assms by simp
qed

lemma mset_cycle_positions:
  assumes "0 < n"
  shows "mset (cycle_positions n k) = mset [0..n - 1]"
  using set_cycle_positions [OF assms, of k] distinct_cycle_positions [OF assms, of k]
  by (simp add: set_eq_iff_mset_eq_distinct [symmetric])

lemma closed_walk_edges_cycle_walk:
  assumes "0 < n"
  shows "closed_walk_edges (cycle_walk n k r) =
    map (\<lambda>t. ((r + t * k) mod n + n, ((r + t * k) mod n + k) mod n + n)) [0..n div gcd k n - 1]"
proof (rule nth_equalityI)
  let ?L = "n div gcd k n"
  note f = gcd_facts [OF assms, of k]
  have len: "length (cycle_walk n k r) = nat ?L"
    using f(2) by (simp add: cycle_walk_def)
  show "length (closed_walk_edges (cycle_walk n k r)) =
      length (map (\<lambda>t. ((r + t * k) mod n + n, ((r + t * k) mod n + k) mod n + n)) [0..?L - 1])"
    using f(2) by (simp add: closed_walk_edges_def cycle_walk_def)
  fix j assume "j < length (closed_walk_edges (cycle_walk n k r))"
  then have j: "j < nat ?L" by (simp add: closed_walk_edges_def len)
  have nth: "cycle_walk n k r ! i = (r + int i * k) mod n + n" if "i < nat ?L" for i
    using that by (simp add: cycle_walk_def)
  have s: "Suc j mod nat ?L < nat ?L" using j by simp
  have "int (Suc j mod nat ?L) = (int j + 1) mod ?L"
    using f(2) by (simp add: zmod_int add.commute)
  then have "(r + int (Suc j mod nat ?L) * k) mod n = (r + (int j + 1) * k) mod n"
    using step_mod_period [OF assms, of r "int j + 1" k] by simp
  also have "\<dots> = ((r + int j * k) + k) mod n"
    by (simp add: algebra_simps)
  also have "\<dots> = ((r + int j * k) mod n + k) mod n"
    by (rule mod_add_left_eq [symmetric])
  finally have succ: "cycle_walk n k r ! (Suc j mod nat ?L) = ((r + int j * k) mod n + k) mod n + n"
    using nth [OF s] by simp
  have "closed_walk_edges (cycle_walk n k r) ! j =
      (cycle_walk n k r ! j, cycle_walk n k r ! (Suc j mod nat ?L))"
    using j by (simp add: closed_walk_edges_def len nth_rotate1)
  also have "\<dots> = ((r + int j * k) mod n + n, ((r + int j * k) mod n + k) mod n + n)"
    using nth [OF j] succ by simp
  finally show "closed_walk_edges (cycle_walk n k r) ! j =
      map (\<lambda>t. ((r + t * k) mod n + n, ((r + t * k) mod n + k) mod n + n)) [0..?L - 1] ! j"
    using j by simp
qed

lemma concat_closed_walk_edges:
  assumes "0 < n"
  shows "concat (map closed_walk_edges (inner_cycles n k)) =
    map (\<lambda>i. (i + n, (i + k) mod n + n)) (cycle_positions n k)"
  by (simp add: inner_cycles_def o_def closed_walk_edges_cycle_walk [OF assms]
      cycle_positions_def concat_map_product case_prod_unfold)

lemma cycles_cover_inner_edges:
  assumes "0 < n"
  shows "mset (concat (map closed_walk_edges (inner_cycles n k))) =
    mset (inner_cycle_edges (petersen_edges n k))"
proof -
  have "mset (map (\<lambda>i. (i + n, (i + k) mod n + n)) (cycle_positions n k)) =
      mset (map (\<lambda>i. (i + n, (i + k) mod n + n)) [0..n - 1])"
    using mset_cycle_positions [OF assms, of k] by (metis mset_map)
  then show ?thesis
    by (simp only: concat_closed_walk_edges [OF assms] petersen_edges_def triples_by_position)
qed

lemma proper_cycle_length:
  assumes "valid_parameters n k"
  shows "3 \<le> n div gcd k n"
proof -
  from assms have n: "0 < n" and k: "0 < k" "2 * k < n" by (simp_all add: valid_parameters_def)
  note f = gcd_facts [OF n, of k]
  have "gcd k n \<le> k" using k by (intro zdvd_imp_le) simp_all
  then have "2 * gcd k n < gcd k n * (n div gcd k n)"
    using k by (simp only: f(3))
  then have "gcd k n * 2 < gcd k n * (n div gcd k n)" by (simp only: mult.commute)
  then have "2 < n div gcd k n"
    using f(1) by (simp only: mult_less_cancel_left_pos)
  then show ?thesis by simp
qed

lemma inner_cycles_shape:
  assumes "0 < n"
  shows "int (length (inner_cycles n k)) = gcd k n"
    and "c \<in> set (inner_cycles n k) \<Longrightarrow> int (length c) = n div gcd k n"
    and "distinct (concat (inner_cycles n k))"
    and "set (concat (inner_cycles n k)) = {n..<2 * n}"
proof -
  note f = gcd_facts [OF assms, of k]
  show "int (length (inner_cycles n k)) = gcd k n"
    using f(1) by (simp add: inner_cycles_def)
  show "int (length c) = n div gcd k n" if "c \<in> set (inner_cycles n k)"
    using that f(2) by (auto simp add: inner_cycles_def cycle_walk_def)
  show "distinct (concat (inner_cycles n k))"
    using distinct_cycle_positions [OF assms, of k]
    by (simp add: concat_inner_cycles distinct_map)
  have "set (concat (inner_cycles n k)) = (\<lambda>x. x + n) ` set [0..n - 1]"
    by (simp add: concat_inner_cycles set_cycle_positions [OF assms])
  also have "\<dots> = {n..<2 * n}"
  proof (intro set_eqI iffI)
    fix x assume "x \<in> (\<lambda>x. x + n) ` set [0..n - 1]"
    then show "x \<in> {n..<2 * n}" by auto
  next
    fix x assume "x \<in> {n..<2 * n}"
    then have "x - n \<in> set [0..n - 1]" "x = (x - n) + n" by simp_all
    then show "x \<in> (\<lambda>x. x + n) ` set [0..n - 1]" by (rule rev_image_eqI)
  qed
  finally show "set (concat (inner_cycles n k)) = {n..<2 * n}" .
qed

lemma inner_cycles_disjoint:
  assumes "0 < n"
  shows "distinct (inner_cycles n k)"
    and "c \<in> set (inner_cycles n k) \<Longrightarrow> distinct c"
    and "c \<in> set (inner_cycles n k) \<Longrightarrow> c' \<in> set (inner_cycles n k) \<Longrightarrow> c \<noteq> c' \<Longrightarrow>
           set c \<inter> set c' = {}"
proof -
  note f = gcd_facts [OF assms, of k]
  note d = inner_cycles_shape(3) [OF assms, of k, unfolded distinct_concat_iff]
  have "[] \<notin> set (inner_cycles n k)"
    using inner_cycles_shape(2) [OF assms, of "[]" k] f(2) by auto
  then have "removeAll [] (inner_cycles n k) = inner_cycles n k" by simp
  with d show "distinct (inner_cycles n k)" by simp
  show "distinct c" if "c \<in> set (inner_cycles n k)" using d that by blast
  show "set c \<inter> set c' = {}"
    if "c \<in> set (inner_cycles n k)" "c' \<in> set (inner_cycles n k)" "c \<noteq> c'"
    using d that by blast
qed

lemma inner_edge_within_cycle:
  assumes "0 < n" "e \<in> set (inner_cycle_edges (petersen_edges n k))"
  shows "\<exists>c \<in> set (inner_cycles n k). fst e \<in> set c \<and> snd e \<in> set c"
proof -
  have "e \<in># mset (inner_cycle_edges (petersen_edges n k))" using assms(2) by simp
  then have "e \<in># mset (concat (map closed_walk_edges (inner_cycles n k)))"
    by (simp only: cycles_cover_inner_edges [OF assms(1)])
  then have "e \<in> set (concat (map closed_walk_edges (inner_cycles n k)))" by simp
  then obtain c where c: "c \<in> set (inner_cycles n k)" and e: "e \<in> set (zip c (rotate1 c))"
    by (auto simp add: closed_walk_edges_def)
  obtain u v where uv: "e = (u, v)" by (cases e)
  from e uv have "u \<in> set c" "v \<in> set (rotate1 c)"
    by (auto dest: set_zip_leftD set_zip_rightD)
  with c uv show ?thesis by auto
qed

section \<open>The claims of the specification\<close>







text \<open>
  C3: the claim is that every pair \<open>(n, k)\<close> outside the valid range is rejected with
  \<^verbatim>\<open>IGRAPH_EINVAL\<close>. The code misses pairs on which its own checks overflow:
  \<open>n = 5\<close>, \<open>k = 2 ^ 62\<close> is not valid, and \<^verbatim>\<open>2*k\<close> in line 62 is not a value of a
  64-bit \<^verbatim>\<open>igraph_integer_t\<close>; \<open>n = - (2 ^ 63)\<close> is not valid either, and \<^verbatim>\<open>2*n\<close> in
  line 55 overflows before \<open>n\<close> is looked at. Neither call returns \<^verbatim>\<open>IGRAPH_EINVAL\<close>,
  in whatever memory.
\<close>

theorem unrepresentable_double_not_rejected:
  "\<not> valid_parameters 5 4611686018427387904
   \<and> igraph_generalized_petersen 9223372036854775807 mem \<lparr>graph = None, edges = None, allocs = 0\<rparr>
        5 4611686018427387904 = None
   \<and> \<not> valid_parameters (- 9223372036854775808) 1
   \<and> igraph_generalized_petersen 9223372036854775807 mem \<lparr>graph = None, edges = None, allocs = 0\<rparr>
        (- 9223372036854775808) 1 = None"
  by (simp add: valid_parameters_def igraph_generalized_petersen_def int_mul_def
      representable_def)

text \<open>
  C4: for every valid input, every vertex of the produced graph has degree exactly 3,
  counting endpoint occurrences in the emitted edge list: an outer vertex \<open>v \<in> [0, n)\<close>
  is an endpoint of two outer-cycle edges and of one spoke, an inner vertex
  \<open>v \<in> [n, 2n)\<close> of two inner-cycle edges and of one spoke. The graph is produced
  exactly when \<open>3n\<close> is a value of \<^verbatim>\<open>igraph_integer_t\<close> and the memory grants the
  vector and the graph.
\<close>

theorem every_vertex_has_degree_three:
  assumes "valid_parameters n k"
  shows "(\<forall>g. produced_graph imax mem s n k = Some g \<longrightarrow>
            (\<forall>v. 0 \<le> v \<and> v < 2 * n \<longrightarrow> degree (elist g) v = 3)
          \<and> (\<forall>v. 0 \<le> v \<and> v < n \<longrightarrow>
                 degree (outer_cycle_edges (elist g)) v = 2
               \<and> degree (spoke_edges (elist g)) v = 1
               \<and> degree (inner_cycle_edges (elist g)) v = 0)
          \<and> (\<forall>v. n \<le> v \<and> v < 2 * n \<longrightarrow>
                 degree (inner_cycle_edges (elist g)) v = 2
               \<and> degree (spoke_edges (elist g)) v = 1
               \<and> degree (outer_cycle_edges (elist g)) v = 0))
       \<and> (produced_graph imax mem s n k \<noteq> None) =
           (3 * n \<le> imax \<and> vector_granted mem n \<and> graph_granted mem n)"
proof -
  from assms have n: "0 < n" by (simp add: valid_parameters_def)
  have e: "elist g = petersen_edges n k" if "produced_graph imax mem s n k = Some g" for g
    using produced_is [OF assms that] by simp
  have 1: "(\<forall>v. 0 \<le> v \<and> v < 2 * n \<longrightarrow> degree (elist g) v = 3)
          \<and> (\<forall>v. 0 \<le> v \<and> v < n \<longrightarrow>
                 degree (outer_cycle_edges (elist g)) v = 2
               \<and> degree (spoke_edges (elist g)) v = 1
               \<and> degree (inner_cycle_edges (elist g)) v = 0)
          \<and> (\<forall>v. n \<le> v \<and> v < 2 * n \<longrightarrow>
                 degree (inner_cycle_edges (elist g)) v = 2
               \<and> degree (spoke_edges (elist g)) v = 1
               \<and> degree (outer_cycle_edges (elist g)) v = 0)"
    if g: "produced_graph imax mem s n k = Some g" for g
    unfolding e [OF g]
    using degrees_of_petersen_edges(1) [OF n, of _ k] degrees_of_petersen_edges(2) [OF n, of _ k]
      degrees_of_petersen_edges(3) [OF n, of _ k]
    by simp
  have 2: "(produced_graph imax mem s n k \<noteq> None) =
      (3 * n \<le> imax \<and> vector_granted mem n \<and> graph_granted mem n)"
    by (rule produced_iff [OF assms])
  from 1 2 show ?thesis by blast
qed

theorem every_vertex_has_degree_three_witness:
  "valid_parameters 5 2
   \<and> produced_graph 9223372036854775807 unbounded_memory \<lparr>graph = None, edges = None, allocs = 0\<rparr> 5 2 =
       Some \<lparr>vcount = 10,
              elist = [(0, 1), (0, 5), (5, 7), (1, 2), (1, 6), (6, 8), (2, 3), (2, 7), (7, 9),
                       (3, 4), (3, 8), (8, 5), (4, 0), (4, 9), (9, 6)],
              directed = False\<rparr>
   \<and> degree [(0, 1), (0, 5), (5, 7), (1, 2), (1, 6), (6, 8), (2, 3), (2, 7), (7, 9),
              (3, 4), (3, 8), (8, 5), (4, 0), (4, 9), (9, 6)] 4 = 3
   \<and> degree [(0, 1), (0, 5), (5, 7), (1, 2), (1, 6), (6, 8), (2, 3), (2, 7), (7, 9),
              (3, 4), (3, 8), (8, 5), (4, 0), (4, 9), (9, 6)] 7 = 3
   \<and> degree (outer_cycle_edges [(0, 1), (0, 5), (5, 7), (1, 2), (1, 6), (6, 8), (2, 3), (2, 7), (7, 9),
              (3, 4), (3, 8), (8, 5), (4, 0), (4, 9), (9, 6)]) 4 = 2
   \<and> degree (inner_cycle_edges [(0, 1), (0, 5), (5, 7), (1, 2), (1, 6), (6, 8), (2, 3), (2, 7), (7, 9),
              (3, 4), (3, 8), (8, 5), (4, 0), (4, 9), (9, 6)]) 7 = 2"
proof -
  let ?es = "[(0, 1), (0, 5), (5, 7), (1, 2), (1, 6), (6, 8), (2, 3), (2, 7), (7, 9),
              (3, 4), (3, 8), (8, 5), (4, 0), (4, 9), (9, 6)] :: (int \<times> int) list"
  let ?s = "\<lparr>graph = None, edges = None, allocs = 0\<rparr>"
  have v: "valid_parameters 5 2" by (simp add: valid_parameters_def)
  have g: "produced_graph 9223372036854775807 unbounded_memory ?s 5 2 =
      Some \<lparr>vcount = 10, elist = ?es, directed = False\<rparr>"
    using v
    by (simp add: produced_valid vector_granted_def graph_granted_def unbounded_memory_def
        petersen_edges_def petersen_triple_def upto_rec1)
  note t = every_vertex_has_degree_three [OF v, of 9223372036854775807 unbounded_memory ?s, THEN conjunct1,
      rule_format, OF g]
  from t have 1: "degree ?es 4 = 3" "degree ?es 7 = 3" by simp_all
  from t have 2: "\<forall>v. 0 \<le> v \<and> v < 5 \<longrightarrow> degree (outer_cycle_edges ?es) v = 2" by simp
  from t have 3: "\<forall>v. 5 \<le> v \<and> v < 2 * 5 \<longrightarrow> degree (inner_cycle_edges ?es) v = 2" by simp
  from 2 have 4: "degree (outer_cycle_edges ?es) 4 = 2" by (elim allE [of _ 4]) simp
  from 3 have 5: "degree (inner_cycle_edges ?es) 7 = 2" by (elim allE [of _ 7]) simp
  show ?thesis using v g 1 4 5 by (intro conjI)
qed

text \<open>
  C5: for every valid input with \<open>g = gcd k n\<close>, the \<open>n\<close> inner-cycle edges that the
  enumerator has emitted decompose the inner vertices \<open>[n, 2n)\<close> into exactly \<open>g\<close>
  disjoint cycles of length \<open>n div g\<close> each: the \<open>g\<close> closed walks \<open>inner_cycles n k\<close>
  are different from one another, each visits \<open>n div g \<ge> 3\<close> different vertices, no
  vertex lies on two of them, together they visit exactly the inner vertices, their
  edges are exactly the emitted inner-cycle edges, each once, and so every emitted
  inner-cycle edge stays within one of them: they are the connected components of the
  inner subgraph. The graph is produced exactly when \<open>3n\<close> is a value of
  \<^verbatim>\<open>igraph_integer_t\<close> and the memory grants the vector and the graph.
\<close>

theorem inner_edges_decompose_into_gcd_cycles:
  assumes "valid_parameters n k"
  shows "(\<forall>g. produced_graph imax mem s n k = Some g \<longrightarrow>
            int (length (inner_cycles n k)) = gcd k n
          \<and> distinct (inner_cycles n k)
          \<and> (\<forall>c \<in> set (inner_cycles n k). int (length c) = n div gcd k n \<and> distinct c)
          \<and> 3 \<le> n div gcd k n
          \<and> (\<forall>c \<in> set (inner_cycles n k). \<forall>c' \<in> set (inner_cycles n k).
                c \<noteq> c' \<longrightarrow> set c \<inter> set c' = {})
          \<and> set (concat (inner_cycles n k)) = {n..<2 * n}
          \<and> mset (concat (map closed_walk_edges (inner_cycles n k))) =
              mset (inner_cycle_edges (elist g))
          \<and> (\<forall>e \<in> set (inner_cycle_edges (elist g)).
                \<exists>c \<in> set (inner_cycles n k). fst e \<in> set c \<and> snd e \<in> set c))
       \<and> (produced_graph imax mem s n k \<noteq> None) =
           (3 * n \<le> imax \<and> vector_granted mem n \<and> graph_granted mem n)"
proof -
  from assms have n: "0 < n" by (simp add: valid_parameters_def)
  have 1: "int (length (inner_cycles n k)) = gcd k n
          \<and> distinct (inner_cycles n k)
          \<and> (\<forall>c \<in> set (inner_cycles n k). int (length c) = n div gcd k n \<and> distinct c)
          \<and> 3 \<le> n div gcd k n
          \<and> (\<forall>c \<in> set (inner_cycles n k). \<forall>c' \<in> set (inner_cycles n k).
                c \<noteq> c' \<longrightarrow> set c \<inter> set c' = {})
          \<and> set (concat (inner_cycles n k)) = {n..<2 * n}
          \<and> mset (concat (map closed_walk_edges (inner_cycles n k))) =
              mset (inner_cycle_edges (elist g))
          \<and> (\<forall>e \<in> set (inner_cycle_edges (elist g)).
                \<exists>c \<in> set (inner_cycles n k). fst e \<in> set c \<and> snd e \<in> set c)"
    if g: "produced_graph imax mem s n k = Some g" for g
  proof -
    have e: "elist g = petersen_edges n k"
      using produced_is [OF assms g] by simp
    show ?thesis
      unfolding e
    proof (intro conjI ballI impI)
      show "int (length (inner_cycles n k)) = gcd k n"
        by (rule inner_cycles_shape(1) [OF n])
      show "distinct (inner_cycles n k)"
        by (rule inner_cycles_disjoint(1) [OF n])
      show "int (length c) = n div gcd k n" if "c \<in> set (inner_cycles n k)" for c
        using that by (rule inner_cycles_shape(2) [OF n])
      show "distinct c" if "c \<in> set (inner_cycles n k)" for c
        using that by (rule inner_cycles_disjoint(2) [OF n])
      show "3 \<le> n div gcd k n"
        by (rule proper_cycle_length [OF assms])
      show "set c \<inter> set c' = {}"
        if "c \<in> set (inner_cycles n k)" "c' \<in> set (inner_cycles n k)" "c \<noteq> c'" for c c'
        using that by (rule inner_cycles_disjoint(3) [OF n])
      show "set (concat (inner_cycles n k)) = {n..<2 * n}"
        by (rule inner_cycles_shape(4) [OF n])
      show "mset (concat (map closed_walk_edges (inner_cycles n k))) =
          mset (inner_cycle_edges (petersen_edges n k))"
        by (rule cycles_cover_inner_edges [OF n])
      show "\<exists>c \<in> set (inner_cycles n k). fst e \<in> set c \<and> snd e \<in> set c"
        if "e \<in> set (inner_cycle_edges (petersen_edges n k))" for e
        using n that by (rule inner_edge_within_cycle)
    qed
  qed
  have 2: "(produced_graph imax mem s n k \<noteq> None) =
      (3 * n \<le> imax \<and> vector_granted mem n \<and> graph_granted mem n)"
    by (rule produced_iff [OF assms])
  from 1 2 show ?thesis by blast
qed

theorem inner_edges_decompose_into_gcd_cycles_witness:
  "valid_parameters 6 2 \<and> gcd (2 :: int) 6 = 2
   \<and> produced_graph 9223372036854775807 unbounded_memory \<lparr>graph = None, edges = None, allocs = 0\<rparr> 6 2 =
       Some \<lparr>vcount = 12,
              elist = [(0, 1), (0, 6), (6, 8), (1, 2), (1, 7), (7, 9), (2, 3), (2, 8), (8, 10),
                       (3, 4), (3, 9), (9, 11), (4, 5), (4, 10), (10, 6), (5, 0), (5, 11), (11, 7)],
              directed = False\<rparr>
   \<and> inner_cycles 6 2 = [[6, 8, 10], [7, 9, 11]]
   \<and> int (length (inner_cycles 6 2)) = 2
   \<and> set (concat (inner_cycles 6 2)) = {6..<12}
   \<and> mset (concat (map closed_walk_edges (inner_cycles 6 2))) =
       mset (inner_cycle_edges [(0, 1), (0, 6), (6, 8), (1, 2), (1, 7), (7, 9), (2, 3), (2, 8), (8, 10),
                       (3, 4), (3, 9), (9, 11), (4, 5), (4, 10), (10, 6), (5, 0), (5, 11), (11, 7)])"
proof -
  let ?es = "[(0, 1), (0, 6), (6, 8), (1, 2), (1, 7), (7, 9), (2, 3), (2, 8), (8, 10),
      (3, 4), (3, 9), (9, 11), (4, 5), (4, 10), (10, 6), (5, 0), (5, 11), (11, 7)] :: (int \<times> int) list"
  let ?s = "\<lparr>graph = None, edges = None, allocs = 0\<rparr>"
  have v: "valid_parameters 6 2" by (simp add: valid_parameters_def)
  have c: "gcd (2 :: int) 6 = 2" by simp
  have g: "produced_graph 9223372036854775807 unbounded_memory ?s 6 2 =
      Some \<lparr>vcount = 12, elist = ?es, directed = False\<rparr>"
    using v
    by (simp add: produced_valid vector_granted_def graph_granted_def unbounded_memory_def
        petersen_edges_def petersen_triple_def upto_rec1)
  have i: "inner_cycles 6 2 = [[6, 8, 10], [7, 9, 11]]"
    by (simp add: inner_cycles_def cycle_walk_def upto_rec1)
  note t = inner_edges_decompose_into_gcd_cycles [OF v, of 9223372036854775807 unbounded_memory ?s,
      THEN conjunct1, rule_format, OF g]
  from t have 1: "int (length (inner_cycles 6 2)) = gcd 2 6" by (rule conjunct1)
  from t have 2: "set (concat (inner_cycles 6 2)) = {6..<2 * 6}" by blast
  from t have 3: "mset (concat (map closed_walk_edges (inner_cycles 6 2))) =
      mset (inner_cycle_edges (elist \<lparr>vcount = 12, elist = ?es, directed = False\<rparr>))"
    by blast
  show ?thesis
    using v c g i 1 2 3 by simp
qed



text \<open>
  C7: the claim is that the capacity reserved before the loop covers the \<open>6n\<close> integers
  that the loop appends. The code reserves \<^verbatim>\<open>3*n\<close> integers: on every valid input
  such that \<open>3n\<close> is a value of \<^verbatim>\<open>igraph_integer_t\<close>, the loop starts, when the
  memory has granted the vector and only then, with an empty vector of capacity \<open>3n\<close>;
  started there it appends \<open>6n\<close> integers, and ends with a buffer that has been
  enlarged once on the way.
\<close>

theorem reserved_capacity_is_half_of_the_appends:
  assumes "valid_parameters n k" "3 * n \<le> imax"
  shows "(edges_init_reserve imax mem n s =
           Some (Inr (s\<lparr>edges := Some \<lparr>stor = [], capacity = nat (3 * n)\<rparr>, allocs := allocs s + 2\<rparr>)))
          = vector_granted mem n
       \<and> petersen_loop imax n k 0
           (s\<lparr>edges := Some \<lparr>stor = [], capacity = nat (3 * n)\<rparr>, allocs := allocs s + 2\<rparr>) =
           Some (s\<lparr>edges := Some \<lparr>stor = petersen_endpoints n k, capacity = nat (6 * n)\<rparr>,
                   allocs := allocs s + 3\<rparr>)
       \<and> length (petersen_endpoints n k) = nat (6 * n)"
proof -
  from assms have n: "3 \<le> n" by (simp add: valid_parameters_def)
  let ?s1 = "s\<lparr>edges := Some \<lparr>stor = [], capacity = nat (3 * n)\<rparr>, allocs := allocs s + 2\<rparr>"
  have c: "2 * nat (3 * n) = nat (6 * n)" using n by simp
  have "petersen_loop imax n k 0 ?s1 =
      Some (?s1\<lparr>edges := Some \<lparr>stor = petersen_endpoints n k, capacity = 2 * nat (3 * n)\<rparr>,
                allocs := allocs ?s1 + 1\<rparr>)"
    using assms by (intro petersen_loop_reserved) simp_all
  moreover have "length (petersen_endpoints n k) = nat (6 * n)"
    using n by (simp add: length_petersen_endpoints)
  moreover have "(edges_init_reserve imax mem n s = Some (Inr ?s1)) = vector_granted mem n"
  proof (cases "vector_granted mem n")
    case True
    then show ?thesis using assms n by (simp add: edges_init_reserve_Some)
  next
    case False
    then have "vector_alloc mem 0 \<Longrightarrow> \<not> vector_alloc mem (nat (3 * n))"
      by (simp add: vector_granted_def)
    then have "\<exists>r. edges_init_reserve imax mem n s = Some (Inl r)"
      using assms(2) n edges_init_reserve_init_fails [of mem imax n s]
        edges_init_reserve_reserve_fails [of n imax mem s]
      by (cases "vector_alloc mem 0") auto
    with False show ?thesis by auto
  qed
  ultimately show ?thesis
    using c by simp
qed

theorem reserved_capacity_is_half_of_the_appends_witness:
  "valid_parameters 3 1 \<and> 3 * 3 \<le> (9223372036854775807 :: int)
   \<and> edges_init_reserve 9223372036854775807 unbounded_memory 3 \<lparr>graph = None, edges = None, allocs = 0\<rparr> =
        Some (Inr \<lparr>graph = None, edges = Some \<lparr>stor = [], capacity = 9\<rparr>, allocs = 2\<rparr>)
   \<and> petersen_loop 9223372036854775807 3 1 0
        \<lparr>graph = None, edges = Some \<lparr>stor = [], capacity = 9\<rparr>, allocs = 2\<rparr> =
        Some \<lparr>graph = None,
               edges = Some \<lparr>stor = [0, 1, 0, 3, 3, 4, 1, 2, 1, 4, 4, 5, 2, 0, 2, 5, 5, 3], capacity = 18\<rparr>,
               allocs = 3\<rparr>"
proof -
  have v: "valid_parameters 3 1" by (simp add: valid_parameters_def)
  have r: "3 * 3 \<le> (9223372036854775807 :: int)" by simp
  have e: "petersen_endpoints 3 1 = [0, 1, 0, 3, 3, 4, 1, 2, 1, 4, 4, 5, 2, 0, 2, 5, 5, 3]"
    by (simp add: petersen_endpoints_def petersen_flat_def upto_rec1)
  show ?thesis
    using reserved_capacity_is_half_of_the_appends [OF v r, of unbounded_memory
        "\<lparr>graph = None, edges = None, allocs = 0\<rparr>"] v
    by (simp add: e numeral_2_eq_2 [symmetric] vector_granted_def unbounded_memory_def)
qed

text \<open>
  C8, as amended: for every valid input such that \<open>3n\<close> is at most the largest value of
  \<^verbatim>\<open>igraph_integer_t\<close>, that is \<open>n\<close> at most a third of it, every arithmetic operation
  of the function has a representable result: \<^verbatim>\<open>2*n\<close>, \<^verbatim>\<open>2*k\<close>, \<^verbatim>\<open>3*n\<close> and, for
  every \<open>i\<close> of the loop, \<^verbatim>\<open>i + 1\<close>, \<^verbatim>\<open>(i + 1) % n\<close>, \<^verbatim>\<open>i + n\<close>, \<^verbatim>\<open>i + k\<close>,
  \<^verbatim>\<open>(i + k) % n\<close> and \<^verbatim>\<open>((i + k) % n) + n\<close>; the run as a whole is defined, in
  whatever memory.
\<close>

theorem no_overflow_up_to_a_third:
  assumes "valid_parameters n k" "3 * n \<le> imax"
  shows "int_mul imax 2 n = Some (2 * n) \<and> int_mul imax 2 k = Some (2 * k)
       \<and> int_mul imax 3 n = Some (3 * n)
       \<and> (\<forall>i. 0 \<le> i \<and> i < n \<longrightarrow>
             int_add imax i 1 = Some (i + 1) \<and> int_rem imax (i + 1) n = Some ((i + 1) mod n)
           \<and> int_add imax i n = Some (i + n) \<and> int_add imax i k = Some (i + k)
           \<and> int_rem imax (i + k) n = Some ((i + k) mod n)
           \<and> int_add imax ((i + k) mod n) n = Some ((i + k) mod n + n))
       \<and> igraph_generalized_petersen imax mem s n k \<noteq> None"
proof -
  from assms have n: "3 \<le> n" and k: "0 < k" "2 * k < n"
    by (simp_all add: valid_parameters_def)
  have 1: "int_mul imax 2 n = Some (2 * n)" "int_mul imax 2 k = Some (2 * k)"
    "int_mul imax 3 n = Some (3 * n)"
    using assms(2) n k by (simp_all add: int_mul_def representable_def)
  have 2: "int_add imax i 1 = Some (i + 1) \<and> int_rem imax (i + 1) n = Some ((i + 1) mod n)
         \<and> int_add imax i n = Some (i + n) \<and> int_add imax i k = Some (i + k)
         \<and> int_rem imax (i + k) n = Some ((i + k) mod n)
         \<and> int_add imax ((i + k) mod n) n = Some ((i + k) mod n + n)"
    if i: "0 \<le> i \<and> i < n" for i
  proof -
    have m: "0 \<le> (i + k) mod n" "(i + k) mod n < n" using n by simp_all
    have "representable imax ((i + k) mod n + n)"
      using m assms(2) n unfolding representable_def by linarith
    then have "int_add imax ((i + k) mod n) n = Some ((i + k) mod n + n)"
      by (rule int_add_Some)
    moreover have "int_rem imax (i + 1) n = Some ((i + 1) mod n)"
      using i n assms(2) by (intro int_rem_nonneg) simp_all
    moreover have "int_rem imax (i + k) n = Some ((i + k) mod n)"
      using i n k assms(2) by (intro int_rem_nonneg) simp_all
    moreover have "int_add imax i 1 = Some (i + 1)" "int_add imax i n = Some (i + n)"
      "int_add imax i k = Some (i + k)"
      using i n k assms(2) by (simp_all add: int_add_def representable_def)
    ultimately show ?thesis by simp
  qed
  have 3: "igraph_generalized_petersen imax mem s n k \<noteq> None"
    using assms n k by (simp add: run_closed_form representable_def)
  show ?thesis using 1 2 3 by blast
qed

theorem no_overflow_up_to_a_third_witness:
  "valid_parameters 3074457345618258602 1 \<and> 3 * 3074457345618258602 \<le> (9223372036854775807 :: int)
   \<and> int_mul 9223372036854775807 3 3074457345618258602 = Some 9223372036854775806
   \<and> int_add 9223372036854775807 3074457345618258601 3074457345618258602 = Some 6148914691236517203
   \<and> igraph_generalized_petersen 9223372036854775807 unbounded_memory \<lparr>graph = None, edges = None, allocs = 0\<rparr>
        3074457345618258602 1 \<noteq> None"
proof -
  have v: "valid_parameters 3074457345618258602 1" by (simp add: valid_parameters_def)
  have r: "3 * 3074457345618258602 \<le> (9223372036854775807 :: int)" by simp
  from no_overflow_up_to_a_third [OF v r, of unbounded_memory
      "\<lparr>graph = None, edges = None, allocs = 0\<rparr>"]
  have "int_mul 9223372036854775807 3 3074457345618258602 = Some (3 * 3074457345618258602)"
    and "int_add 9223372036854775807 3074457345618258601 3074457345618258602
          = Some (3074457345618258601 + 3074457345618258602)"
    and "igraph_generalized_petersen 9223372036854775807 unbounded_memory \<lparr>graph = None, edges = None, allocs = 0\<rparr>
        3074457345618258602 1 \<noteq> None"
    by simp_all
  then show ?thesis using v by simp
qed

text \<open>
  C8 as stated fails: \<open>n = 4611686018427387903\<close> is at most half of the largest value
  \<open>9223372036854775807\<close> of a 64-bit \<^verbatim>\<open>igraph_integer_t\<close> and \<open>(n, 1)\<close> is valid, yet
  \<^verbatim>\<open>3*n\<close> in line 67 is not representable.
\<close>

theorem no_overflow_up_to_half_counterexample:
  "valid_parameters 4611686018427387903 1
   \<and> 2 * 4611686018427387903 \<le> (9223372036854775807 :: int)
   \<and> int_mul 9223372036854775807 2 4611686018427387903 = Some 9223372036854775806
   \<and> int_mul 9223372036854775807 3 4611686018427387903 = None
   \<and> igraph_generalized_petersen 9223372036854775807 unbounded_memory \<lparr>graph = None, edges = None, allocs = 0\<rparr>
        4611686018427387903 1 = None"
  by (simp add: valid_parameters_def igraph_generalized_petersen_def edges_init_reserve_def
      igraph_vector_int_init_def int_mul_def representable_def unbounded_memory_def)

text \<open>
  C9: for every valid input, every integer that the loop has appended to the edge list
  lies in \<open>[0, n)\<close> or in \<open>[n, 2n)\<close>, hence is a vertex index in \<open>[0, 2n)\<close>; for every
  \<open>i\<close> of the loop the operands \<open>i + 1\<close> and \<open>i + k\<close> of \<^verbatim>\<open>%\<close> are non-negative and
  less than \<open>2n\<close>, and no result of \<^verbatim>\<open>% n\<close> is negative. The loop does run to its end
  exactly when \<open>3n\<close> is a value of \<^verbatim>\<open>igraph_integer_t\<close> and the memory grants the
  vector, and both remainders are the mathematical \<open>mod\<close> whenever \<open>3n\<close> is such a
  value.
\<close>

theorem appended_endpoints_in_range:
  assumes "valid_parameters n k"
  shows "(\<forall>xs. emitted_endpoints imax mem s n k = Some xs \<longrightarrow>
            (\<forall>x \<in> set xs. (0 \<le> x \<and> x < n) \<or> (n \<le> x \<and> x < 2 * n)))
       \<and> (\<forall>i. 0 \<le> i \<and> i < n \<longrightarrow>
              0 \<le> i + 1 \<and> i + 1 < 2 * n \<and> 0 \<le> i + k \<and> i + k < 2 * n
            \<and> (\<forall>r. int_rem imax (i + 1) n = Some r \<longrightarrow> 0 \<le> r \<and> r < n)
            \<and> (\<forall>r. int_rem imax (i + k) n = Some r \<longrightarrow> 0 \<le> r \<and> r < n))
       \<and> (emitted_endpoints imax mem s n k \<noteq> None) = (3 * n \<le> imax \<and> vector_granted mem n)
       \<and> (3 * n \<le> imax \<longrightarrow>
              (\<forall>i. 0 \<le> i \<and> i < n \<longrightarrow>
                  int_rem imax (i + 1) n = Some ((i + 1) mod n)
                \<and> int_rem imax (i + k) n = Some ((i + k) mod n)))"
proof -
  from assms have n: "3 \<le> n" and k: "0 < k" "2 * k < n"
    by (simp_all add: valid_parameters_def)
  have 1: "(0 \<le> x \<and> x < n) \<or> (n \<le> x \<and> x < 2 * n)"
    if "emitted_endpoints imax mem s n k = Some xs" "x \<in> set xs" for xs x
  proof -
    have "xs = petersen_endpoints n k"
      using that(1) by (rule emitted_is [OF assms])
    with that(2) have "0 \<le> x \<and> x < 2 * n"
      using set_concat_flat_bounds [of n x k] n by (simp add: petersen_endpoints_def)
    then show ?thesis by linarith
  qed
  have 2: "0 \<le> i + 1 \<and> i + 1 < 2 * n \<and> 0 \<le> i + k \<and> i + k < 2 * n
         \<and> (\<forall>r. int_rem imax (i + 1) n = Some r \<longrightarrow> 0 \<le> r \<and> r < n)
         \<and> (\<forall>r. int_rem imax (i + k) n = Some r \<longrightarrow> 0 \<le> r \<and> r < n)"
    if i: "0 \<le> i \<and> i < n" for i
  proof -
    have "0 \<le> r \<and> r < n" if "int_rem imax (i + 1) n = Some r" for r
      using int_rem_Some_nonneg [of "i + 1" n imax r] that i n by simp
    moreover have "0 \<le> r \<and> r < n" if "int_rem imax (i + k) n = Some r" for r
      using int_rem_Some_nonneg [of "i + k" n imax r] that i n k by simp
    ultimately show ?thesis using i n k by simp
  qed
  have 3: "\<forall>i. 0 \<le> i \<and> i < n \<longrightarrow>
               int_rem imax (i + 1) n = Some ((i + 1) mod n)
             \<and> int_rem imax (i + k) n = Some ((i + k) mod n)"
    if r: "3 * n \<le> imax"
  proof -
    have "int_rem imax (i + 1) n = Some ((i + 1) mod n)" if "0 \<le> i \<and> i < n" for i
      using that n r by (intro int_rem_nonneg) simp_all
    moreover have "int_rem imax (i + k) n = Some ((i + k) mod n)" if "0 \<le> i \<and> i < n" for i
      using that n k r by (intro int_rem_nonneg) simp_all
    ultimately show ?thesis by simp
  qed
  show ?thesis
  proof (intro conjI)
    show "\<forall>xs. emitted_endpoints imax mem s n k = Some xs \<longrightarrow>
            (\<forall>x \<in> set xs. (0 \<le> x \<and> x < n) \<or> (n \<le> x \<and> x < 2 * n))"
      using 1 by blast
    show "\<forall>i. 0 \<le> i \<and> i < n \<longrightarrow>
              0 \<le> i + 1 \<and> i + 1 < 2 * n \<and> 0 \<le> i + k \<and> i + k < 2 * n
            \<and> (\<forall>r. int_rem imax (i + 1) n = Some r \<longrightarrow> 0 \<le> r \<and> r < n)
            \<and> (\<forall>r. int_rem imax (i + k) n = Some r \<longrightarrow> 0 \<le> r \<and> r < n)"
      using 2 by blast
    show "(emitted_endpoints imax mem s n k \<noteq> None) = (3 * n \<le> imax \<and> vector_granted mem n)"
      by (rule emitted_iff [OF assms])
    show "3 * n \<le> imax \<longrightarrow>
              (\<forall>i. 0 \<le> i \<and> i < n \<longrightarrow>
                  int_rem imax (i + 1) n = Some ((i + 1) mod n)
                \<and> int_rem imax (i + k) n = Some ((i + k) mod n))"
      using 3 by blast
  qed
qed

theorem appended_endpoints_in_range_witness:
  "valid_parameters 4 1
   \<and> emitted_endpoints 2147483647 unbounded_memory \<lparr>graph = None, edges = None, allocs = 0\<rparr> 4 1 =
       Some [0, 1, 0, 4, 4, 5, 1, 2, 1, 5, 5, 6, 2, 3, 2, 6, 6, 7, 3, 0, 3, 7, 7, 4]
   \<and> set [0, 1, 0, 4, 4, 5, 1, 2, 1, 5, 5, 6, 2, 3, 2, 6, 6, 7, 3, 0, 3, 7, 7, 4] \<subseteq> {0..<2 * (4 :: int)}
   \<and> int_rem 2147483647 (3 + 1) 4 = Some ((3 + 1) mod 4)"
proof -
  have v: "valid_parameters 4 1" by (simp add: valid_parameters_def)
  have r: "3 * 4 \<le> (2147483647 :: int)" by simp
  have e: "emitted_endpoints 2147483647 unbounded_memory \<lparr>graph = None, edges = None, allocs = 0\<rparr> 4 1 =
       Some [0, 1, 0, 4, 4, 5, 1, 2, 1, 5, 5, 6, 2, 3, 2, 6, 6, 7, 3, 0, 3, 7, 7, 4]"
    using v r
    by (simp add: emitted_valid vector_granted_def unbounded_memory_def petersen_endpoints_def
        petersen_flat_def upto_rec1)
  note t = appended_endpoints_in_range [OF v, of 2147483647 unbounded_memory "\<lparr>graph = None, edges = None, allocs = 0\<rparr>"]
  from t e have "\<forall>x \<in> set [0, 1, 0, 4, 4, 5, 1, 2, 1, 5, 5, 6, 2, 3, 2, 6, 6, 7, 3, 0, 3, 7, 7, 4].
      (0 \<le> x \<and> x < 4) \<or> (4 \<le> x \<and> x < 2 * (4 :: int))"
    by blast
  then have a: "set [0, 1, 0, 4, 4, 5, 1, 2, 1, 5, 5, 6, 2, 3, 2, 6, 6, 7, 3, 0, 3, 7, 7, 4] \<subseteq> {0..<2 * (4 :: int)}"
    by (intro subsetI) (simp only: atLeastLessThan_iff, fastforce)
  from t r have "\<forall>i. 0 \<le> i \<and> i < 4 \<longrightarrow>
                  int_rem 2147483647 (i + 1) 4 = Some ((i + 1) mod 4)
                \<and> int_rem 2147483647 (i + 1) 4 = Some ((i + 1) mod 4)"
    by blast
  then have c: "int_rem 2147483647 (3 + 1) 4 = Some ((3 + 1) mod 4)"
    by (elim allE [of _ 3]) simp
  show ?thesis using v e a c by (intro conjI)
qed

text \<open>
  C10: for every valid input the emitted edge list is a simple graph: none of its \<open>3n\<close>
  edges is a self-loop and no two of them join the same unordered pair of vertices. The
  graph is produced exactly when \<open>3n\<close> is a value of \<^verbatim>\<open>igraph_integer_t\<close> and the
  memory grants the vector and the graph. The strict bound
  \<open>2k < n\<close> is needed: with \<open>2k = n\<close> the edges of the same formula contain an inner
  edge twice.
\<close>

theorem produced_graph_is_simple:
  assumes "valid_parameters n k"
  shows "(\<forall>g. produced_graph imax mem s n k = Some g \<longrightarrow>
            simple_graph (elist g) \<and> int (length (elist g)) = 3 * n)
       \<and> (produced_graph imax mem s n k \<noteq> None) =
           (3 * n \<le> imax \<and> vector_granted mem n \<and> graph_granted mem n)
       \<and> (\<forall>m j. 0 < j \<and> 2 * j = m \<longrightarrow> \<not> simple_graph (petersen_edges m j))"
proof -
  from assms have n: "0 \<le> n" by (simp add: valid_parameters_def)
  have 1: "simple_graph (elist g) \<and> int (length (elist g)) = 3 * n"
    if g: "produced_graph imax mem s n k = Some g" for g
  proof -
    have "elist g = petersen_edges n k"
      using produced_is [OF assms g] by simp
    then show ?thesis
      using simple_petersen_edges [OF assms] n by (simp add: length_petersen_edges)
  qed
  have 2: "(produced_graph imax mem s n k \<noteq> None) =
      (3 * n \<le> imax \<and> vector_granted mem n \<and> graph_granted mem n)"
    by (rule produced_iff [OF assms])
  have 3: "\<not> simple_graph (petersen_edges m j)" if "0 < j \<and> 2 * j = m" for m j
    using that half_step_duplicates_inner_edge [of j m] by simp
  from 1 2 3 show ?thesis by blast
qed

theorem produced_graph_is_simple_witness:
  "valid_parameters 5 2
   \<and> produced_graph 9223372036854775807 unbounded_memory \<lparr>graph = None, edges = None, allocs = 0\<rparr> 5 2 =
       Some \<lparr>vcount = 10,
              elist = [(0, 1), (0, 5), (5, 7), (1, 2), (1, 6), (6, 8), (2, 3), (2, 7), (7, 9),
                       (3, 4), (3, 8), (8, 5), (4, 0), (4, 9), (9, 6)],
              directed = False\<rparr>
   \<and> simple_graph [(0, 1), (0, 5), (5, 7), (1, 2), (1, 6), (6, 8), (2, 3), (2, 7), (7, 9),
                    (3, 4), (3, 8), (8, 5), (4, 0), (4, 9), (9, 6)]
   \<and> \<not> simple_graph (petersen_edges 4 2)"
proof -
  let ?es = "[(0, 1), (0, 5), (5, 7), (1, 2), (1, 6), (6, 8), (2, 3), (2, 7), (7, 9),
              (3, 4), (3, 8), (8, 5), (4, 0), (4, 9), (9, 6)] :: (int \<times> int) list"
  let ?s = "\<lparr>graph = None, edges = None, allocs = 0\<rparr>"
  have v: "valid_parameters 5 2" by (simp add: valid_parameters_def)
  have g: "produced_graph 9223372036854775807 unbounded_memory ?s 5 2 =
      Some \<lparr>vcount = 10, elist = ?es, directed = False\<rparr>"
    using v
    by (simp add: produced_valid vector_granted_def graph_granted_def unbounded_memory_def
        petersen_edges_def petersen_triple_def upto_rec1)
  note t = produced_graph_is_simple [OF v, of 9223372036854775807 unbounded_memory ?s]
  from t g have 1: "simple_graph ?es" by simp
  from t have "\<forall>m j. 0 < j \<and> 2 * j = m \<longrightarrow> \<not> simple_graph (petersen_edges m j)" by blast
  then have "0 < (2 :: int) \<and> 2 * 2 = (4 :: int) \<longrightarrow> \<not> simple_graph (petersen_edges 4 2)"
    by (elim allE [of _ 4] allE [of _ 2])
  then have 2: "\<not> simple_graph (petersen_edges 4 2)" by simp
  show ?thesis using v g 1 2 by (intro conjI)
qed

end
